theory Spec2Isabelle
  imports Main
begin

section \<open>Data model of VDSAukcion.py\<close>

text \<open>
  A Python \<open>str\<close> is a sequence of Unicode code points; display names and icons are
  modelled as lists of code points, so that \<open>len\<close> is \<open>length\<close>. Photo identifiers and
  Telegram file identifiers are ASCII and are modelled as \<open>string\<close>.
\<close>

type_synonym ustr = "nat list"

text \<open>\<open>MAX_CONFIRMED_USERS = 4\<close> (line 20).\<close>

definition MAX_CONFIRMED_USERS :: nat where
  "MAX_CONFIRMED_USERS = 4"

text \<open>
  A Python \<open>dict\<close> keeps its keys in insertion order; it is modelled as an association list.
  \<open>dict_set\<close> is \<open>d[k] = v\<close> (overwrite in place, or append a new key), \<open>dict_del\<close> is
  \<open>del d[k]\<close>, \<open>dict_has\<close> is \<open>k in d\<close> and \<open>dict_get\<close> is \<open>d.get(k)\<close>.
\<close>

type_synonym ('k, 'v) dict = "('k \<times> 'v) list"

definition dict_has :: "'k \<Rightarrow> ('k, 'v) dict \<Rightarrow> bool" where
  "dict_has k d = (k \<in> set (map fst d))"

definition dict_get :: "('k, 'v) dict \<Rightarrow> 'k \<Rightarrow> 'v option" where
  "dict_get d k = map_of d k"

fun dict_set :: "'k \<Rightarrow> 'v \<Rightarrow> ('k, 'v) dict \<Rightarrow> ('k, 'v) dict" where
  "dict_set k v [] = [(k, v)]"
| "dict_set k v (e # d) = (if fst e = k then (k, v) # d else e # dict_set k v d)"

definition dict_del :: "'k \<Rightarrow> ('k, 'v) dict \<Rightarrow> ('k, 'v) dict" where
  "dict_del k d = filter (\<lambda>e. fst e \<noteq> k) d"

text \<open>
  The value stored under the key \<open>"photo"\<close> or \<open>"photo_file_unique_id"\<close> of an item:
  a string, or \<open>None\<close> (JSON \<open>null\<close>).
\<close>

datatype jval = JNull | JStr string

text \<open>
  One entry of \<open>photos_data\<close> (line 24): a dictionary with the keys \<open>"photo"\<close>,
  \<open>"photo_file_unique_id"\<close>, \<open>"users"\<close> (\<open>{user_id: name}\<close>) and \<open>"confirmed_users"\<close>
  (a list of \<open>{"user_id": .., "name": ..}\<close>). Each field is \<open>None\<close> when the key is
  absent; the code reads the last two through \<open>.get(key, default)\<close>.
\<close>

record photo_data =
  photo :: "jval option"
  photo_file_unique_id :: "jval option"
  users :: "(int, ustr) dict option"
  confirmed_users :: "(int \<times> ustr) list option"

text \<open>\<open>photo_data.get("users", {})\<close> and \<open>photo_data.get("confirmed_users", [])\<close>.\<close>

definition users_of :: "photo_data \<Rightarrow> (int, ustr) dict" where
  "users_of pd = (case users pd of None \<Rightarrow> [] | Some us \<Rightarrow> us)"

definition confirmed_of :: "photo_data \<Rightarrow> (int \<times> ustr) list" where
  "confirmed_of pd = (case confirmed_users pd of None \<Rightarrow> [] | Some cs \<Rightarrow> cs)"

text \<open>\<open>any(u["user_id"] == user_id for u in confirmed_users)\<close>.\<close>

definition is_confirmed :: "int \<Rightarrow> (int \<times> ustr) list \<Rightarrow> bool" where
  "is_confirmed user_id cs = (user_id \<in> set (map fst cs))"

text \<open>
  \<open>next((i for i, u in enumerate(confirmed_users) if u["user_id"] == user_id), -1)\<close>:
  the first index holding the user, or \<open>-1\<close>.
\<close>

fun position_from :: "int \<Rightarrow> int \<Rightarrow> (int \<times> ustr) list \<Rightarrow> int" where
  "position_from i user_id [] = -1"
| "position_from i user_id (u # cs) =
     (if fst u = user_id then i else position_from (i + 1) user_id cs)"

definition position_of :: "int \<Rightarrow> (int \<times> ustr) list \<Rightarrow> int" where
  "position_of user_id cs = position_from 0 user_id cs"

subsection \<open>Rank icons: \<open>get_user_icon\<close> (lines 107-118)\<close>

definition icon_sun :: ustr where "icon_sun = [9728, 65039]"
definition icon_sun_cloud :: ustr where "icon_sun_cloud = [127780, 65039]"
definition icon_moon :: ustr where "icon_moon = [127769]"
definition icon_star :: ustr where "icon_star = [11088]"
definition icon_person :: ustr where "icon_person = [128100]"

definition get_user_icon :: "int \<Rightarrow> ustr" where
  "get_user_icon index =
     (if index = 0 then icon_sun
      else if index = 1 then icon_sun_cloud
      else if index = 2 then icon_moon
      else if index = 3 then icon_star
      else icon_person)"

text \<open>
  The two symbol families, as the bot's own help text names them (lines 193-194, 229-230):
  the first two participants get a sun icon (day auction), the next two a moon icon
  (night auction).
\<close>

definition daytime_family :: "ustr set" where
  "daytime_family = {icon_sun, icon_sun_cloud}"

definition nighttime_family :: "ustr set" where
  "nighttime_family = {icon_moon, icon_star}"

subsection \<open>Replies\<close>

text \<open>
  Every handler answers with one message. The failure messages are named after the error
  taxonomy of the specification where one applies; the others are named after what the
  message says.
\<close>

datatype error =
    Forbidden            \<comment> \<open>only for administrators\<close>
  | ItemNotFound         \<comment> \<open>photo id not in \<open>photos_data\<close>\<close>
  | AlreadyRegistered    \<comment> \<open>"you have already written your name"\<close>
  | NotRegistered        \<comment> \<open>"write your name first" / "participant not found" / "you have no name"\<close>
  | AlreadyConfirmed     \<comment> \<open>"you have already confirmed"\<close>
  | NotConfirmed         \<comment> \<open>"participant was not confirmed"\<close>
  | CapacityFull         \<comment> \<open>"there are already 4 confirmed participants"\<close>
  | AlreadyModerator
  | NotModerator
  | LastModerator
  | SelfRemoval
  | Usage                \<comment> \<open>command called without argument\<close>
  | BadNumber            \<comment> \<open>\<open>int(args[0])\<close> raised \<open>ValueError\<close>\<close>
  | EmptyName
  | NameTooLong
  | NameTooShort
  | InvalidCharacters
  | NothingToDo          \<comment> \<open>no photos to clear, or no name awaited\<close>
  | KeyError             \<comment> \<open>an uncaught Python \<open>KeyError\<close>\<close>

datatype outcome =
    AwaitingName
  | AutoConfirmed ustr int ustr      \<comment> \<open>name, position, icon\<close>
  | WasConfirmed ustr int ustr       \<comment> \<open>name saved, user was confirmed before: name, position, icon\<close>
  | WaitingList ustr                 \<comment> \<open>name saved, all places taken\<close>
  | ConfirmedAt ustr int ustr        \<comment> \<open>name, position, icon\<close>
  | NameDeleted ustr
  | AdminDeleted ustr bool bool      \<comment> \<open>name, \<open>confirm_removed\<close>, \<open>user_removed\<close>\<close>
  | AdminUnconfirmed ustr nat        \<comment> \<open>name, \<open>after_count\<close>\<close>
  | PhotoAdded string
  | NamesCleared nat nat nat         \<comment> \<open>photos affected, users cleared, confirmations cleared\<close>
  | AllReset nat
  | BecameFirstAdmin
  | Greeting
  | AdminAdded
  | AdminRemoved

type_synonym reply = "error + outcome"

section \<open>Operations on one item\<close>

text \<open>
  Each function below is the part of a handler that works on \<open>photo_data =
  photos_data[photo_id]\<close>; it returns the reply and the item as the handler leaves it.
\<close>

text \<open>Explicit confirmation: \<open>button_handler\<close>, action \<open>confirm\<close> (lines 1397-1445).\<close>

definition action_confirm :: "int \<Rightarrow> photo_data \<Rightarrow> reply \<times> photo_data" where
  "action_confirm user_id pd =
     (if \<not> dict_has user_id (users_of pd) then (Inl NotRegistered, pd)
      else if length (confirmed_of pd) \<ge> MAX_CONFIRMED_USERS then (Inl CapacityFull, pd)
      else if is_confirmed user_id (confirmed_of pd) then (Inl AlreadyConfirmed, pd)
      else (case dict_get (users_of pd) user_id of
              None \<Rightarrow> (Inl KeyError, pd)
            | Some user_name \<Rightarrow>
                (let cs = confirmed_of pd @ [(user_id, user_name)];
                     position = int (length cs) - 1
                 in (Inr (ConfirmedAt user_name position (get_user_icon position)),
                     pd\<lparr>confirmed_users := Some cs\<rparr>))))"

text \<open>
  Name validation and cleaning in \<open>handle_text\<close> (lines 1497-1547).

  \<open>str.strip\<close>, \<open>str.split\<close> and the class \<open>\s\<close> of a Unicode pattern all use the
  interpreter's whitespace table, which is the list of code points below. The class \<open>\w\<close>
  is \<open>isalnum\<close> or the underscore; the alphanumeric table of the interpreter is not part
  of the program and is taken as the parameter \<open>alnum\<close>.
\<close>

definition is_space :: "nat \<Rightarrow> bool" where
  "is_space c = ((9 \<le> c \<and> c \<le> 13) \<or> (28 \<le> c \<and> c \<le> 32) \<or> c = 133 \<or> c = 160 \<or> c = 5760
                 \<or> (8192 \<le> c \<and> c \<le> 8202) \<or> c = 8232 \<or> c = 8233 \<or> c = 8239 \<or> c = 8287
                 \<or> c = 12288)"

text \<open>\<open>text.strip()\<close>.\<close>

definition strip :: "ustr \<Rightarrow> ustr" where
  "strip s = rev (dropWhile is_space (rev (dropWhile is_space s)))"

text \<open>
  \<open>re.sub(r'<[^>]+>', '', s)\<close>: at a \<open><\<close> (60) the pattern matches when the run of
  characters other than \<open>>\<close> (62) that follows is not empty and is followed by a \<open>>\<close>; the
  match is dropped and the scan goes on behind it. Otherwise the character is copied.
\<close>

function strip_tags :: "ustr \<Rightarrow> ustr" where
  "strip_tags [] = []"
| "strip_tags (c # cs) =
     (if c = 60 \<and> takeWhile (\<lambda>x. x \<noteq> 62) cs \<noteq> [] \<and> dropWhile (\<lambda>x. x \<noteq> 62) cs \<noteq> []
      then strip_tags (tl (dropWhile (\<lambda>x. x \<noteq> 62) cs))
      else c # strip_tags cs)"
  by pat_completeness auto
termination
proof (relation "measure length")
  show "wf (measure length)" by simp
next
  fix c :: nat and cs :: ustr
  have "length (tl (dropWhile (\<lambda>x. x \<noteq> 62) cs)) \<le> length cs"
    using length_dropWhile_le [of "\<lambda>x. x \<noteq> 62" cs] by simp
  then show "(tl (dropWhile (\<lambda>x. x \<noteq> 62) cs), c # cs) \<in> measure length"
    by simp
next
  fix c :: nat and cs :: ustr
  show "(cs, c # cs) \<in> measure length" by simp
qed

text \<open>
  The second substitution (line 1519) deletes every character outside the class
  of word characters, whitespace, hyphen (45), dot (46), apostrophe (39) and the
  Cyrillic block U+0400 to U+04FF.
\<close>

definition allowed_char :: "(nat \<Rightarrow> bool) \<Rightarrow> nat \<Rightarrow> bool" where
  "allowed_char alnum c =
     (alnum c \<or> c = 95 \<or> is_space c \<or> c = 45 \<or> c = 46 \<or> c = 39 \<or> (1024 \<le> c \<and> c \<le> 1279))"

text \<open>\<open>s.split()\<close>: the maximal runs of non-whitespace characters.\<close>

fun split_ws :: "ustr \<Rightarrow> ustr \<Rightarrow> ustr list" where
  "split_ws cur [] = (if cur = [] then [] else [cur])"
| "split_ws cur (c # cs) =
     (if is_space c then (if cur = [] then split_ws [] cs else cur # split_ws [] cs)
      else split_ws (cur @ [c]) cs)"

text \<open>\<open>' '.join(words)\<close>.\<close>

fun join_space :: "ustr list \<Rightarrow> ustr" where
  "join_space [] = []"
| "join_space [w] = w"
| "join_space (w # ws) = w @ [32] @ join_space ws"

text \<open>\<open>escape_html\<close> with \<open>escape_map\<close> (lines 1535-1545).\<close>

definition escape_char :: "nat \<Rightarrow> ustr" where
  "escape_char c =
     (if c = 38 then [38, 97, 109, 112, 59]
      else if c = 60 then [38, 108, 116, 59]
      else if c = 62 then [38, 103, 116, 59]
      else if c = 34 then [38, 113, 117, 111, 116, 59]
      else if c = 39 then [38, 35, 51, 57, 59]
      else [c])"

definition escape_html :: "ustr \<Rightarrow> ustr" where
  "escape_html text = concat (map escape_char text)"

text \<open>Steps 3 to 5 of the cleaning: the value of \<open>user_name_clean\<close> at line 1522.\<close>

definition clean_text :: "(nat \<Rightarrow> bool) \<Rightarrow> ustr \<Rightarrow> ustr" where
  "clean_text alnum user_name =
     join_space (split_ws [] (filter (allowed_char alnum) (strip_tags user_name)))"

text \<open>
  The whole validation, from the message text to \<open>user_name_safe\<close>, with every early
  return of lines 1497-1527 as an error.
\<close>

definition clean_name :: "(nat \<Rightarrow> bool) \<Rightarrow> ustr \<Rightarrow> error + ustr" where
  "clean_name alnum text =
     (let user_name = strip text in
      if user_name = [] then Inl EmptyName
      else if length user_name > 20 then Inl NameTooLong
      else if length user_name < 2 then Inl NameTooShort
      else (let user_name_clean = clean_text alnum user_name in
            if user_name_clean = [] then Inl InvalidCharacters
            else Inr (escape_html (if length user_name_clean > 20 then take 20 user_name_clean
                                   else user_name_clean))))"

text \<open>
  Storing the name and automatic confirmation: \<open>handle_text\<close>, lines 1549-1604. The icon of
  the branch for a user who was confirmed before falls back to the check mark (9989).
\<close>

definition register_commit :: "int \<Rightarrow> ustr \<Rightarrow> photo_data \<Rightarrow> reply \<times> photo_data" where
  "register_commit user_id user_name_safe pd =
     (let us = dict_set user_id user_name_safe (users_of pd);
          cs = confirmed_of pd;
          confirmed_count = length cs;
          user_already_confirmed = is_confirmed user_id cs
      in if \<not> user_already_confirmed \<and> confirmed_count < MAX_CONFIRMED_USERS then
           (let position = int (confirmed_count + 1) - 1
            in (Inr (AutoConfirmed user_name_safe position (get_user_icon position)),
                pd\<lparr>users := Some us, confirmed_users := Some (cs @ [(user_id, user_name_safe)])\<rparr>))
         else if user_already_confirmed then
           (let position = position_of user_id cs;
                icon = (if position \<ge> 0 then get_user_icon position else [9989])
            in (Inr (WasConfirmed user_name_safe position icon),
                pd\<lparr>users := Some us, confirmed_users := Some cs\<rparr>))
         else (Inr (WaitingList user_name_safe),
               pd\<lparr>users := Some us, confirmed_users := Some cs\<rparr>))"

text \<open>
  The two removals shared by \<open>confirm_delete_\<close> and \<open>admindeleteok_\<close>: the confirmed list
  is filtered when the key exists, the name is deleted when the key exists and holds the
  user.
\<close>

definition remove_confirmed :: "int \<Rightarrow> photo_data \<Rightarrow> photo_data" where
  "remove_confirmed user_id pd =
     (case confirmed_users pd of
        None \<Rightarrow> pd
      | Some cs \<Rightarrow> pd\<lparr>confirmed_users := Some (filter (\<lambda>u. fst u \<noteq> user_id) cs)\<rparr>)"

definition remove_user :: "int \<Rightarrow> photo_data \<Rightarrow> photo_data" where
  "remove_user user_id pd =
     (case users pd of
        None \<Rightarrow> pd
      | Some us \<Rightarrow> if dict_has user_id us then pd\<lparr>users := Some (dict_del user_id us)\<rparr> else pd)"

text \<open>
  \<open>user_name = photo_data.get("users", {}).get(user_id)\<close> followed by \<open>if not user_name\<close>:
  the name when there is a non-empty one.
\<close>

definition lookup_name :: "int \<Rightarrow> photo_data \<Rightarrow> ustr option" where
  "lookup_name user_id pd =
     (case dict_get (users_of pd) user_id of
        None \<Rightarrow> None
      | Some user_name \<Rightarrow> if user_name = [] then None else Some user_name)"

text \<open>Unregistration by the user: \<open>confirm_delete_\<close> (lines 1307-1325).\<close>

definition confirm_delete :: "int \<Rightarrow> photo_data \<Rightarrow> reply \<times> photo_data" where
  "confirm_delete user_id pd =
     (case lookup_name user_id pd of
        None \<Rightarrow> (Inl NotRegistered, pd)
      | Some user_name \<Rightarrow>
          (Inr (NameDeleted user_name), remove_user user_id (remove_confirmed user_id pd)))"

text \<open>Deletion by an administrator: \<open>admindeleteok_\<close> (lines 992-1018).\<close>

definition admindeleteok :: "int \<Rightarrow> photo_data \<Rightarrow> reply \<times> photo_data" where
  "admindeleteok target_user_id pd =
     (case lookup_name target_user_id pd of
        None \<Rightarrow> (Inl NotRegistered, pd)
      | Some user_name \<Rightarrow>
          (let pd1 = remove_confirmed target_user_id pd;
               confirm_removed = (confirmed_users pd \<noteq> None
                                  \<and> length (confirmed_of pd) > length (confirmed_of pd1));
               user_removed = (users pd1 \<noteq> None \<and> dict_has target_user_id (users_of pd1))
           in (Inr (AdminDeleted user_name confirm_removed user_removed),
               remove_user target_user_id pd1)))"

text \<open>
  Withdrawal of a confirmation by an administrator: \<open>adminunconfirmok_\<close>
  (lines 1049-1068). The list is read with \<open>photo_data["confirmed_users"]\<close>, which raises
  \<open>KeyError\<close> when the key is absent, and is assigned before the counts are compared.
\<close>

definition adminunconfirmok :: "int \<Rightarrow> photo_data \<Rightarrow> reply \<times> photo_data" where
  "adminunconfirmok target_user_id pd =
     (case lookup_name target_user_id pd of
        None \<Rightarrow> (Inl NotRegistered, pd)
      | Some user_name \<Rightarrow>
          (let before_count = length (confirmed_of pd) in
           case confirmed_users pd of
             None \<Rightarrow> (Inl KeyError, pd)
           | Some cs \<Rightarrow>
               (let pd1 = pd\<lparr>confirmed_users := Some (filter (\<lambda>u. fst u \<noteq> target_user_id) cs)\<rparr>;
                    after_count = length (confirmed_of pd1)
                in if before_count = after_count then (Inl NotConfirmed, pd1)
                   else (Inr (AdminUnconfirmed user_name after_count), pd1))))"

text \<open>
  The body of the loop of \<open>clear_names\<close> (lines 468-477): an item that has names or
  confirmations is emptied.
\<close>

definition has_participants :: "photo_data \<Rightarrow> bool" where
  "has_participants pd = (users_of pd \<noteq> [] \<or> confirmed_of pd \<noteq> [])"

definition clear_item :: "photo_data \<Rightarrow> photo_data" where
  "clear_item pd =
     (if has_participants pd then pd\<lparr>users := Some [], confirmed_users := Some []\<rparr> else pd)"

section \<open>The bot state and its handlers\<close>

text \<open>
  The global state: the set \<open>admins\<close>, the dictionary \<open>photos_data\<close>, and for every user
  the entry \<open>awaiting_name\<close> of \<open>context.user_data\<close> (the library keeps one \<open>user_data\<close>
  dictionary per user; \<open>awaiting_user_id\<close> is stored next to it and is that user's own id).
\<close>

record bot_state =
  admins :: "int set"
  photos_data :: "(string, photo_data) dict"
  awaiting_name :: "int \<Rightarrow> string option"

definition is_admin :: "bot_state \<Rightarrow> int \<Rightarrow> bool" where
  "is_admin s user_id = (user_id \<in> admins s)"

text \<open>
  The argument of \<open>/add_admin\<close> and \<open>/remove_admin\<close>: \<open>context.args\<close> empty, \<open>int(args[0])\<close>
  raising \<open>ValueError\<close>, or the parsed number.
\<close>

datatype cmd_arg = NoArg | NotInt | IntArg int

text \<open>\<open>start\<close> (lines 170-235): the first user ever becomes administrator.\<close>

definition start :: "bot_state \<Rightarrow> int \<Rightarrow> reply \<times> bot_state" where
  "start s user_id =
     (if admins s = {} then (Inr BecameFirstAdmin, s\<lparr>admins := insert user_id (admins s)\<rparr>)
      else (Inr Greeting, s))"

text \<open>\<open>add_admin\<close> (lines 238-284).\<close>

definition add_admin :: "bot_state \<Rightarrow> int \<Rightarrow> cmd_arg \<Rightarrow> reply \<times> bot_state" where
  "add_admin s user_id arg =
     (if \<not> is_admin s user_id then (Inl Forbidden, s)
      else case arg of
             NoArg \<Rightarrow> (Inl Usage, s)
           | NotInt \<Rightarrow> (Inl BadNumber, s)
           | IntArg new_admin_id \<Rightarrow>
               if new_admin_id \<in> admins s then (Inl AlreadyModerator, s)
               else (Inr AdminAdded, s\<lparr>admins := insert new_admin_id (admins s)\<rparr>))"

text \<open>\<open>remove_admin\<close> (lines 287-334); \<open>len(admins)\<close> is the cardinality of the set.\<close>

definition remove_admin :: "bot_state \<Rightarrow> int \<Rightarrow> cmd_arg \<Rightarrow> reply \<times> bot_state" where
  "remove_admin s user_id arg =
     (if \<not> is_admin s user_id then (Inl Forbidden, s)
      else case arg of
             NoArg \<Rightarrow> (Inl Usage, s)
           | NotInt \<Rightarrow> (Inl BadNumber, s)
           | IntArg admin_to_remove \<Rightarrow>
               if admin_to_remove \<notin> admins s then (Inl NotModerator, s)
               else if card (admins s) \<le> 1 then (Inl LastModerator, s)
               else if admin_to_remove = user_id then (Inl SelfRemoval, s)
               else (Inr AdminRemoved, s\<lparr>admins := admins s - {admin_to_remove}\<rparr>))"

text \<open>\<open>str(n)\<close> for a non-negative number: its decimal digits.\<close>

definition digit_char :: "nat \<Rightarrow> char" where
  "digit_char d = char_of (48 + d)"

function str_nat :: "nat \<Rightarrow> string" where
  "str_nat n = (if n < 10 then [digit_char n] else str_nat (n div 10) @ [digit_char (n mod 10)])"
  by pat_completeness auto
termination
  by (relation "measure id") auto

text \<open>\<open>f"photo_{n}"\<close>.\<close>

definition photo_name :: "nat \<Rightarrow> string" where
  "photo_name n = ''photo_'' @ str_nat n"

text \<open>
  \<open>handle_photo\<close> (lines 411-430): the identifier is built from the number of entries
  that \<open>photos_data\<close> holds at this moment.
\<close>

definition new_photo :: "string \<Rightarrow> string \<Rightarrow> photo_data" where
  "new_photo file_id file_unique_id =
     \<lparr>photo = Some (JStr file_id), photo_file_unique_id = Some (JStr file_unique_id),
      users = Some [], confirmed_users = Some []\<rparr>"

definition handle_photo :: "bot_state \<Rightarrow> int \<Rightarrow> string \<Rightarrow> string \<Rightarrow> reply \<times> bot_state" where
  "handle_photo s user_id file_id file_unique_id =
     (if \<not> is_admin s user_id then (Inl Forbidden, s)
      else (let photo_id = photo_name (length (photos_data s) + 1)
            in (Inr (PhotoAdded photo_id),
                s\<lparr>photos_data := dict_set photo_id (new_photo file_id file_unique_id)
                                            (photos_data s)\<rparr>)))"

text \<open>\<open>clear_names\<close> (lines 451-491).\<close>

definition clear_names :: "bot_state \<Rightarrow> int \<Rightarrow> reply \<times> bot_state" where
  "clear_names s user_id =
     (if \<not> is_admin s user_id then (Inl Forbidden, s)
      else if photos_data s = [] then (Inl NothingToDo, s)
      else (let affected = filter (\<lambda>e. has_participants (snd e)) (photos_data s);
                total_users_cleared = sum_list (map (\<lambda>e. length (users_of (snd e))) affected);
                total_confirmations_cleared =
                  sum_list (map (\<lambda>e. length (confirmed_of (snd e))) affected)
            in (Inr (NamesCleared (length affected) total_users_cleared
                       total_confirmations_cleared),
                s\<lparr>photos_data := map (\<lambda>e. (fst e, clear_item (snd e))) (photos_data s)\<rparr>)))"

text \<open>The button \<open>confirm_reset_all\<close> (lines 865-874).\<close>

definition confirm_reset_all :: "bot_state \<Rightarrow> int \<Rightarrow> reply \<times> bot_state" where
  "confirm_reset_all s user_id =
     (if \<not> is_admin s user_id then (Inl Forbidden, s)
      else (Inr (AllReset (length (photos_data s))), s\<lparr>photos_data := []\<rparr>))"

text \<open>
  A handler that changes one item looks it up, works on it in place, and so leaves the
  changed item under the same key.
\<close>

definition on_item ::
  "bot_state \<Rightarrow> string \<Rightarrow> (photo_data \<Rightarrow> reply \<times> photo_data) \<Rightarrow> reply \<times> bot_state" where
  "on_item s photo_id f =
     (case dict_get (photos_data s) photo_id of
        None \<Rightarrow> (Inl ItemNotFound, s)
      | Some pd \<Rightarrow>
          (let (r, pd') = f pd
           in (r, s\<lparr>photos_data := dict_set photo_id pd' (photos_data s)\<rparr>)))"

text \<open>The button \<open>register_<photo_id>\<close> (lines 1376-1394).\<close>

definition action_register :: "bot_state \<Rightarrow> int \<Rightarrow> string \<Rightarrow> reply \<times> bot_state" where
  "action_register s user_id photo_id =
     (case dict_get (photos_data s) photo_id of
        None \<Rightarrow> (Inl ItemNotFound, s)
      | Some pd \<Rightarrow>
          if dict_has user_id (users_of pd) then (Inl AlreadyRegistered, s)
          else (Inr AwaitingName, s\<lparr>awaiting_name := (awaiting_name s)(user_id := Some photo_id)\<rparr>))"

text \<open>
  \<open>handle_text\<close> (lines 1486-1604): the awaited photo is popped from \<open>user_data\<close> before
  anything is checked.
\<close>

definition handle_text :: "(nat \<Rightarrow> bool) \<Rightarrow> bot_state \<Rightarrow> int \<Rightarrow> ustr \<Rightarrow> reply \<times> bot_state" where
  "handle_text alnum s user_id text =
     (case awaiting_name s user_id of
        None \<Rightarrow> (Inl NothingToDo, s)
      | Some photo_id \<Rightarrow>
          (let s1 = s\<lparr>awaiting_name := (awaiting_name s)(user_id := None)\<rparr> in
           case dict_get (photos_data s1) photo_id of
             None \<Rightarrow> (Inl ItemNotFound, s1)
           | Some pd \<Rightarrow>
               (case clean_name alnum text of
                  Inl e \<Rightarrow> (Inl e, s1)
                | Inr user_name_safe \<Rightarrow>
                    on_item s1 photo_id (register_commit user_id user_name_safe))))"

text \<open>\<open>text.replace(pat, "")\<close> for a non-empty \<open>pat\<close>: every occurrence is dropped, from the left.\<close>

function remove_sub :: "string \<Rightarrow> string \<Rightarrow> string" where
  "remove_sub pat [] = []"
| "remove_sub pat (c # cs) =
     (if pat \<noteq> [] \<and> take (length pat) (c # cs) = pat
      then remove_sub pat (drop (length pat) (c # cs))
      else c # remove_sub pat cs)"
  by pat_completeness auto
termination
  by (relation "measure (\<lambda>(pat, text). length text)") auto

text \<open>
  A callback \<open>confirm_delete_<rest>\<close> (lines 1300-1325): the photo identifier is the
  callback data with every \<open>confirm_delete_\<close> removed.
\<close>

definition button_confirm_delete :: "bot_state \<Rightarrow> int \<Rightarrow> string \<Rightarrow> reply \<times> bot_state" where
  "button_confirm_delete s user_id rest =
     on_item s (remove_sub ''confirm_delete_'' (''confirm_delete_'' @ rest)) (confirm_delete user_id)"

text \<open>
  A callback \<open>confirm_<rest>\<close>. The handler compares the data with \<open>confirm_reset_all\<close>
  (line 865) and with the prefix \<open>confirm_delete_\<close> (line 1300) before it splits off the
  action \<open>confirm\<close> (lines 1369-1372, 1397).
\<close>

definition button_confirm :: "bot_state \<Rightarrow> int \<Rightarrow> string \<Rightarrow> reply \<times> bot_state" where
  "button_confirm s user_id rest =
     (if rest = ''reset_all'' then confirm_reset_all s user_id
      else if take 7 rest = ''delete_'' then button_confirm_delete s user_id (drop 7 rest)
      else on_item s rest (action_confirm user_id))"

text \<open>
  The buttons \<open>admindeleteok_<n>_<target>\<close> and \<open>adminunconfirmok_<n>_<target>\<close>
  (lines 975-1080), with the data already split at the underscores into the segment \<open>n\<close>
  and the number \<open>target\<close>: the photo identifier is \<open>"photo_" + n\<close>, the administrator
  check comes before the lookup.
\<close>

definition button_admindeleteok :: "bot_state \<Rightarrow> int \<Rightarrow> string \<Rightarrow> int \<Rightarrow> reply \<times> bot_state" where
  "button_admindeleteok s user_id part target_user_id =
     (if \<not> is_admin s user_id then (Inl Forbidden, s)
      else on_item s (''photo_'' @ part) (admindeleteok target_user_id))"

definition button_adminunconfirmok ::
  "bot_state \<Rightarrow> int \<Rightarrow> string \<Rightarrow> int \<Rightarrow> reply \<times> bot_state" where
  "button_adminunconfirmok s user_id part target_user_id =
     (if \<not> is_admin s user_id then (Inl Forbidden, s)
      else on_item s (''photo_'' @ part) (adminunconfirmok target_user_id))"

text \<open>
  The updates that change the state. \<open>RegisterButton\<close>, \<open>ConfirmButton\<close> and
  \<open>ConfirmDeleteButton\<close> carry what follows \<open>register_\<close>, \<open>confirm_\<close> and
  \<open>confirm_delete_\<close> in the callback data. The remaining handlers (views, listings and
  the dialogs that only ask for confirmation) read the state and leave it as it is.
\<close>

datatype event =
    Start int
  | AddAdmin int cmd_arg
  | RemoveAdmin int cmd_arg
  | Photo int string string
  | ClearNames int
  | ConfirmResetAll int
  | RegisterButton int string
  | Text int ustr
  | ConfirmButton int string
  | ConfirmDeleteButton int string
  | AdminDeleteOk int string int
  | AdminUnconfirmOk int string int

fun step :: "(nat \<Rightarrow> bool) \<Rightarrow> bot_state \<Rightarrow> event \<Rightarrow> reply \<times> bot_state" where
  "step alnum s (Start u) = start s u"
| "step alnum s (AddAdmin u a) = add_admin s u a"
| "step alnum s (RemoveAdmin u a) = remove_admin s u a"
| "step alnum s (Photo u f q) = handle_photo s u f q"
| "step alnum s (ClearNames u) = clear_names s u"
| "step alnum s (ConfirmResetAll u) = confirm_reset_all s u"
| "step alnum s (RegisterButton u p) = action_register s u p"
| "step alnum s (Text u t) = handle_text alnum s u t"
| "step alnum s (ConfirmButton u p) = button_confirm s u p"
| "step alnum s (ConfirmDeleteButton u p) = button_confirm_delete s u p"
| "step alnum s (AdminDeleteOk u n t) = button_admindeleteok s u n t"
| "step alnum s (AdminUnconfirmOk u n t) = button_adminunconfirmok s u n t"

text \<open>Running a list of updates, collecting the replies.\<close>

fun run :: "(nat \<Rightarrow> bool) \<Rightarrow> bot_state \<Rightarrow> event list \<Rightarrow> reply list \<times> bot_state" where
  "run alnum s [] = ([], s)"
| "run alnum s (e # es) =
     (let (r, s1) = step alnum s e; (rs, s2) = run alnum s1 es in (r # rs, s2))"

subsection \<open>Durable storage: \<open>save_photos_data\<close> and \<open>load_photos_data\<close> (lines 51-101)\<close>

text \<open>
  The file \<open>photos_data.json\<close>: absent, unreadable (any exception while reading or
  parsing), or a dictionary of item dictionaries.
\<close>

datatype photos_file = NoFile | Unreadable | Content "(string, photo_data) dict"

text \<open>
  \<open>data.get("photo")\<close> gives \<open>None\<close> for an absent key, and the key is written in any
  case; \<open>users\<close> and \<open>confirmed_users\<close> are not written.
\<close>

definition saved_value :: "jval option \<Rightarrow> jval option" where
  "saved_value v = (case v of None \<Rightarrow> Some JNull | Some x \<Rightarrow> Some x)"

definition save_item :: "photo_data \<Rightarrow> photo_data" where
  "save_item d =
     \<lparr>photo = saved_value (photo d), photo_file_unique_id = saved_value (photo_file_unique_id d),
      users = None, confirmed_users = None\<rparr>"

definition save_photos_data :: "(string, photo_data) dict \<Rightarrow> photos_file" where
  "save_photos_data ps = Content (map (\<lambda>e. (fst e, save_item (snd e))) ps)"

text \<open>
  Loading empties \<open>users\<close> and \<open>confirmed_users\<close> where the keys exist and keeps the entries
  that have the key \<open>"photo"\<close>.
\<close>

definition load_item :: "photo_data \<Rightarrow> photo_data" where
  "load_item d =
     d\<lparr>users := (case users d of None \<Rightarrow> None | Some _ \<Rightarrow> Some []),
       confirmed_users := (case confirmed_users d of None \<Rightarrow> None | Some _ \<Rightarrow> Some [])\<rparr>"

definition load_photos_data :: "photos_file \<Rightarrow> (string, photo_data) dict" where
  "load_photos_data f =
     (case f of
        NoFile \<Rightarrow> []
      | Unreadable \<Rightarrow> []
      | Content c \<Rightarrow> filter (\<lambda>e. photo (snd e) \<noteq> None) (map (\<lambda>e. (fst e, load_item (snd e))) c))"

subsection \<open>Helpers for stating properties\<close>

text \<open>Pressing \<open>confirm\<close> for several users in turn, on one item.\<close>

fun confirm_all :: "int list \<Rightarrow> photo_data \<Rightarrow> reply list \<times> photo_data" where
  "confirm_all [] pd = ([], pd)"
| "confirm_all (u # us) pd =
     (let (r, pd1) = action_confirm u pd; (rs, pd2) = confirm_all us pd1 in (r # rs, pd2))"

text \<open>Concrete names and a concrete full item, used to evaluate the handlers.\<close>

definition name_ann :: ustr where "name_ann = [65, 110, 110]"
definition name_bob :: ustr where "name_bob = [66, 111, 98]"
definition name_cid :: ustr where "name_cid = [67, 105, 100]"
definition name_dan :: ustr where "name_dan = [68, 97, 110]"
definition name_eve :: ustr where "name_eve = [69, 118, 101]"

definition four_users :: "(int \<times> ustr) list" where
  "four_users = [(1, name_ann), (2, name_bob), (3, name_cid), (4, name_dan)]"

definition full_item :: photo_data where
  "full_item = \<lparr>photo = Some (JStr ''f1''), photo_file_unique_id = Some (JStr ''q1''),
                 users = Some four_users, confirmed_users = Some four_users\<rparr>"

definition single_admin :: bot_state where
  "single_admin = \<lparr>admins = {1}, photos_data = [], awaiting_name = Map.empty\<rparr>"

text \<open>An item that holds user 1 in the confirmed list only.\<close>

definition orphan_item :: photo_data where
  "orphan_item = \<lparr>photo = Some (JStr ''f1''), photo_file_unique_id = Some (JStr ''q1''),
                   users = Some [], confirmed_users = Some [(1, name_ann)]\<rparr>"

text \<open>
  The invariant of an item: no user is confirmed twice, at most \<open>MAX_CONFIRMED_USERS\<close> are
  confirmed, and every confirmed entry carries the name the registered set holds for
  its user.
\<close>

definition item_inv :: "photo_data \<Rightarrow> bool" where
  "item_inv pd =
     (distinct (map fst (confirmed_of pd))
      \<and> length (confirmed_of pd) \<le> MAX_CONFIRMED_USERS
      \<and> (\<forall>e \<in> set (confirmed_of pd). dict_get (users_of pd) (fst e) = Some (snd e)))"

text \<open>Every registered name is non-empty.\<close>

definition names_ok :: "photo_data \<Rightarrow> bool" where
  "names_ok pd = (\<forall>e \<in> set (users_of pd). snd e \<noteq> [])"

text \<open>
  A user whose name is awaited for a photo is not registered under that photo: the
  button \<open>register\<close> is the only place that sets \<open>awaiting_name\<close>, and it checks this.
\<close>

definition gate_inv :: "bot_state \<Rightarrow> bool" where
  "gate_inv s =
     (\<forall>u p pd. awaiting_name s u = Some p \<longrightarrow> dict_get (photos_data s) p = Some pd
        \<longrightarrow> \<not> dict_has u (users_of pd))"

definition bot_inv :: "bot_state \<Rightarrow> bool" where
  "bot_inv s = ((\<forall>e \<in> set (photos_data s). item_inv (snd e) \<and> names_ok (snd e)) \<and> gate_inv s)"

text \<open>
  Whether the identifiers announced in a list of replies follow the count of photos
  added before them: the photo added after \<open>n\<close> others is \<open>photo_<n+1>\<close>.
\<close>

fun allocation_follows_count :: "nat \<Rightarrow> reply list \<Rightarrow> bool" where
  "allocation_follows_count n [] = True"
| "allocation_follows_count n (Inr (PhotoAdded p) # rs) =
     (p = photo_name (n + 1) \<and> allocation_follows_count (n + 1) rs)"
| "allocation_follows_count n (r # rs) = allocation_follows_count n rs"

text \<open>
  The ASCII rows of the interpreter's alphanumeric table, to evaluate the handlers on
  ASCII text.
\<close>

definition ascii_alnum :: "nat \<Rightarrow> bool" where
  "ascii_alnum c = ((48 \<le> c \<and> c \<le> 57) \<or> (65 \<le> c \<and> c \<le> 90) \<or> (97 \<le> c \<and> c \<le> 122))"

text \<open>
  A state in which user 5 has pressed \<open>register\<close> under a photo without participants,
  and the text \<open>O'Brien-O'Connor\<close>.
\<close>

definition awaiting_state :: bot_state where
  "awaiting_state =
     \<lparr>admins = {1}, photos_data = [(''photo_1'', new_photo ''f1'' ''q1'')],
      awaiting_name = [5 \<mapsto> ''photo_1'']\<rparr>"

definition name_obrien :: ustr where
  "name_obrien = [79, 39, 66, 114, 105, 101, 110, 45, 79, 39, 67, 111, 110, 110, 111, 114]"



text \<open>
  The full item after the confirmation of user 2 was withdrawn, the registry that holds
  the full item, and the registry that holds the other while the name of user 5 is
  awaited.
\<close>

definition three_item :: photo_data where
  "three_item = \<lparr>photo = Some (JStr ''f1''), photo_file_unique_id = Some (JStr ''q1''),
                  users = Some four_users,
                  confirmed_users = Some [(1, name_ann), (3, name_cid), (4, name_dan)]\<rparr>"

definition full_state :: bot_state where
  "full_state = \<lparr>admins = {1}, photos_data = [(''photo_1'', full_item)],
                  awaiting_name = Map.empty\<rparr>"

definition freed_state :: bot_state where
  "freed_state = \<lparr>admins = {1}, photos_data = [(''photo_1'', three_item)],
                   awaiting_name = [5 \<mapsto> ''photo_1'']\<rparr>"

section \<open>Properties\<close>

subsection \<open>Dictionaries\<close>

lemma dict_get_set: "dict_get (dict_set k v d) k' = (if k' = k then Some v else dict_get d k')"
  by (induction d) (auto simp: dict_get_def)

lemma dict_has_set: "dict_has k' (dict_set k v d) = (k' = k \<or> dict_has k' d)"
  by (induction d) (auto simp: dict_has_def)

lemma dict_has_get: "dict_has k d = (dict_get d k \<noteq> None)"
  by (induction d) (auto simp: dict_has_def dict_get_def)

lemma dict_has_del: "dict_has k' (dict_del k d) = (k' \<noteq> k \<and> dict_has k' d)"
  by (induction d) (auto simp: dict_has_def dict_del_def)

lemma dict_get_del: "dict_get (dict_del k d) k' = (if k' = k then None else dict_get d k')"
  by (induction d) (auto simp: dict_get_def dict_del_def)




lemma set_dict_set: "x \<in> set (dict_set k v d) \<Longrightarrow> x = (k, v) \<or> x \<in> set d"
  by (induction d) (auto split: if_splits)

lemma length_dict_set:
  "length (dict_set k v d) = (if dict_has k d then length d else Suc (length d))"
  by (induction d) (auto simp: dict_has_def)

lemma map_fst_dict_set:
  "map fst (dict_set k v d) = (if dict_has k d then map fst d else map fst d @ [k])"
  by (induction d) (auto simp: dict_has_def)

subsection \<open>Rank icons and the order of confirmation\<close>

lemma action_confirm_ok:
  assumes "dict_get (users_of pd) u = Some n"
    and "length (confirmed_of pd) < MAX_CONFIRMED_USERS"
    and "\<not> is_confirmed u (confirmed_of pd)"
  shows "action_confirm u pd =
           (Inr (ConfirmedAt n (int (length (confirmed_of pd)))
                   (get_user_icon (int (length (confirmed_of pd))))),
            pd\<lparr>confirmed_users := Some (confirmed_of pd @ [(u, n)])\<rparr>)"
  using assms by (simp add: action_confirm_def dict_has_get Let_def)

lemma action_confirm_full:
  assumes "dict_get (users_of pd) u = Some n"
    and "length (confirmed_of pd) \<ge> MAX_CONFIRMED_USERS"
  shows "action_confirm u pd = (Inl CapacityFull, pd)"
  using assms by (simp add: action_confirm_def dict_has_get)

lemma users_of_confirmed_update [simp]: "users_of (pd\<lparr>confirmed_users := c\<rparr>) = users_of pd"
  by (simp add: users_of_def)

lemma confirmed_of_confirmed_update [simp]:
  "confirmed_of (pd\<lparr>confirmed_users := Some cs\<rparr>) = cs"
  by (simp add: confirmed_of_def)

lemma confirmed_of_users_update [simp]: "confirmed_of (pd\<lparr>users := c\<rparr>) = confirmed_of pd"
  by (simp add: confirmed_of_def)

lemma users_of_users_update [simp]: "users_of (pd\<lparr>users := Some us\<rparr>) = us"
  by (simp add: users_of_def)

text \<open>
  C7. \<open>get_user_icon\<close> sends positions 0 and 1 to the daytime family, 2 and 3 to the
  nighttime family and every position from 4 on to the participant icon, which is in
  neither family. Hence, on an item without confirmations, five different registered
  users who confirm in turn get the sun, the sun with cloud, the moon and the star, in
  this order, and the fifth is refused because the places are taken.
\<close>

theorem get_user_icon_ranks:
  "get_user_icon 0 \<in> daytime_family \<and> get_user_icon 1 \<in> daytime_family
   \<and> get_user_icon 2 \<in> nighttime_family \<and> get_user_icon 3 \<in> nighttime_family
   \<and> (\<forall>i \<ge> 4. get_user_icon i = icon_person)
   \<and> icon_person \<notin> daytime_family \<union> nighttime_family
   \<and> daytime_family \<inter> nighttime_family = {}
   \<and> (distinct [a, b, c, d, e] \<longrightarrow> confirmed_of pd = []
        \<longrightarrow> dict_get (users_of pd) a = Some na \<longrightarrow> dict_get (users_of pd) b = Some nb
        \<longrightarrow> dict_get (users_of pd) c = Some nc \<longrightarrow> dict_get (users_of pd) d = Some nd
        \<longrightarrow> dict_get (users_of pd) e = Some ne
        \<longrightarrow> confirm_all [a, b, c, d, e] pd =
             ([Inr (ConfirmedAt na 0 icon_sun), Inr (ConfirmedAt nb 1 icon_sun_cloud),
               Inr (ConfirmedAt nc 2 icon_moon), Inr (ConfirmedAt nd 3 icon_star),
               Inl CapacityFull],
              pd\<lparr>confirmed_users := Some [(a, na), (b, nb), (c, nc), (d, nd)]\<rparr>))"
proof -
  have fam: "get_user_icon 0 \<in> daytime_family \<and> get_user_icon 1 \<in> daytime_family
      \<and> get_user_icon 2 \<in> nighttime_family \<and> get_user_icon 3 \<in> nighttime_family"
    by (simp add: get_user_icon_def daytime_family_def nighttime_family_def)
  have rest: "\<forall>i \<ge> 4. get_user_icon i = icon_person"
    by (simp add: get_user_icon_def)
  have apart: "icon_person \<notin> daytime_family \<union> nighttime_family
      \<and> daytime_family \<inter> nighttime_family = {}"
    by (simp add: daytime_family_def nighttime_family_def icon_sun_def icon_sun_cloud_def
        icon_moon_def icon_star_def icon_person_def)
  have run: "confirm_all [a, b, c, d, e] pd =
             ([Inr (ConfirmedAt na 0 icon_sun), Inr (ConfirmedAt nb 1 icon_sun_cloud),
               Inr (ConfirmedAt nc 2 icon_moon), Inr (ConfirmedAt nd 3 icon_star),
               Inl CapacityFull],
              pd\<lparr>confirmed_users := Some [(a, na), (b, nb), (c, nc), (d, nd)]\<rparr>)"
    if dist: "distinct [a, b, c, d, e]" and empty: "confirmed_of pd = []"
      and a: "dict_get (users_of pd) a = Some na" and b: "dict_get (users_of pd) b = Some nb"
      and c: "dict_get (users_of pd) c = Some nc" and d: "dict_get (users_of pd) d = Some nd"
      and e: "dict_get (users_of pd) e = Some ne"
  proof -
    let ?p1 = "pd\<lparr>confirmed_users := Some [(a, na)]\<rparr>"
    let ?p2 = "pd\<lparr>confirmed_users := Some [(a, na), (b, nb)]\<rparr>"
    let ?p3 = "pd\<lparr>confirmed_users := Some [(a, na), (b, nb), (c, nc)]\<rparr>"
    let ?p4 = "pd\<lparr>confirmed_users := Some [(a, na), (b, nb), (c, nc), (d, nd)]\<rparr>"
    have s1: "action_confirm a pd = (Inr (ConfirmedAt na 0 icon_sun), ?p1)"
      using action_confirm_ok [of pd a na] a empty
      by (simp add: MAX_CONFIRMED_USERS_def is_confirmed_def get_user_icon_def)
    have s2: "action_confirm b ?p1 = (Inr (ConfirmedAt nb 1 icon_sun_cloud), ?p2)"
      using action_confirm_ok [of ?p1 b nb] b dist
      by (auto simp: MAX_CONFIRMED_USERS_def is_confirmed_def get_user_icon_def)
    have s3: "action_confirm c ?p2 = (Inr (ConfirmedAt nc 2 icon_moon), ?p3)"
      using action_confirm_ok [of ?p2 c nc] c dist
      by (auto simp: MAX_CONFIRMED_USERS_def is_confirmed_def get_user_icon_def)
    have s4: "action_confirm d ?p3 = (Inr (ConfirmedAt nd 3 icon_star), ?p4)"
      using action_confirm_ok [of ?p3 d nd] d dist
      by (auto simp: MAX_CONFIRMED_USERS_def is_confirmed_def get_user_icon_def)
    have s5: "action_confirm e ?p4 = (Inl CapacityFull, ?p4)"
      using action_confirm_full [of ?p4 e ne] e
      by (simp add: MAX_CONFIRMED_USERS_def)
    show ?thesis
      by (simp add: s1 s2 s3 s4 s5)
  qed
  from fam rest apart run show ?thesis by blast
qed

theorem get_user_icon_ranks_witness:
  "get_user_icon 7 = icon_person
   \<and> confirm_all [4, 3, 2, 1, 5]
        (full_item\<lparr>users := Some (four_users @ [(5, name_eve)]), confirmed_users := Some []\<rparr>) =
      ([Inr (ConfirmedAt name_dan 0 icon_sun), Inr (ConfirmedAt name_cid 1 icon_sun_cloud),
        Inr (ConfirmedAt name_bob 2 icon_moon), Inr (ConfirmedAt name_ann 3 icon_star),
        Inl CapacityFull],
       full_item\<lparr>users := Some (four_users @ [(5, name_eve)]),
                 confirmed_users := Some [(4, name_dan), (3, name_cid), (2, name_bob), (1, name_ann)]\<rparr>)"
  using get_user_icon_ranks [of 4 3 2 1 5
      "full_item\<lparr>users := Some (four_users @ [(5, name_eve)]), confirmed_users := Some []\<rparr>"
      name_dan name_cid name_bob name_ann name_eve]
  by (simp add: four_users_def dict_get_def)

subsection \<open>Explicit confirmation\<close>

text \<open>
  C2, as the claim states it, fails: user 1 is registered and confirmed on a full item,
  and the answer to \<open>confirm\<close> is that the places are taken, not that the user has
  already confirmed.
\<close>

theorem action_confirm_full_counterexample:
  "dict_has 1 (users_of full_item) \<and> is_confirmed 1 (confirmed_of full_item)
   \<and> length (confirmed_of full_item) = MAX_CONFIRMED_USERS
   \<and> action_confirm 1 full_item = (Inl CapacityFull, full_item)
   \<and> fst (action_confirm 1 full_item) \<noteq> Inl AlreadyConfirmed"
  by (simp add: action_confirm_def full_item_def four_users_def users_of_def confirmed_of_def
      dict_has_def is_confirmed_def MAX_CONFIRMED_USERS_def)

text \<open>
  C2, amended. Explicit confirmation fails with \<open>NotRegistered\<close> exactly when the user is
  not in the registered set; with \<open>CapacityFull\<close> exactly when the user is registered and
  the confirmed list has \<open>MAX_CONFIRMED_USERS\<close> entries, whether or not the user is among
  them; with \<open>AlreadyConfirmed\<close> exactly when the user is registered, the list is not full
  and the user is in it. A failure leaves the item unchanged. Otherwise the user is appended
  with the registered name and the reply carries the last position and its icon.
\<close>

theorem action_confirm_cases:
  "(fst (action_confirm u pd) = Inl NotRegistered \<longleftrightarrow> \<not> dict_has u (users_of pd))
   \<and> (fst (action_confirm u pd) = Inl CapacityFull \<longleftrightarrow>
        dict_has u (users_of pd) \<and> length (confirmed_of pd) \<ge> MAX_CONFIRMED_USERS)
   \<and> (fst (action_confirm u pd) = Inl AlreadyConfirmed \<longleftrightarrow>
        dict_has u (users_of pd) \<and> length (confirmed_of pd) < MAX_CONFIRMED_USERS
        \<and> is_confirmed u (confirmed_of pd))
   \<and> ((\<exists>e. fst (action_confirm u pd) = Inl e) \<longrightarrow> snd (action_confirm u pd) = pd)
   \<and> (dict_has u (users_of pd) \<and> length (confirmed_of pd) < MAX_CONFIRMED_USERS
        \<and> \<not> is_confirmed u (confirmed_of pd) \<longrightarrow>
        (\<exists>n. dict_get (users_of pd) u = Some n
           \<and> action_confirm u pd =
               (Inr (ConfirmedAt n (int (length (confirmed_of pd)))
                       (get_user_icon (int (length (confirmed_of pd))))),
                pd\<lparr>confirmed_users := Some (confirmed_of pd @ [(u, n)])\<rparr>)))"
proof (cases "dict_get (users_of pd) u")
  case None
  then show ?thesis
    by (simp add: action_confirm_def dict_has_get)
next
  case (Some n)
  then have reg: "dict_has u (users_of pd)"
    by (simp add: dict_has_get)
  show ?thesis
  proof (cases "length (confirmed_of pd) \<ge> MAX_CONFIRMED_USERS")
    case True
    then show ?thesis
      using reg by (simp add: action_confirm_def)
  next
    case False
    show ?thesis
    proof (cases "is_confirmed u (confirmed_of pd)")
      case True
      then show ?thesis
        using reg False by (simp add: action_confirm_def)
    next
      case nc: False
      have "action_confirm u pd =
               (Inr (ConfirmedAt n (int (length (confirmed_of pd)))
                       (get_user_icon (int (length (confirmed_of pd))))),
                pd\<lparr>confirmed_users := Some (confirmed_of pd @ [(u, n)])\<rparr>)"
        using action_confirm_ok [of pd u n] Some False nc by simp
      then show ?thesis
        using reg False nc Some by simp
    qed
  qed
qed

theorem action_confirm_cases_witness:
  "action_confirm 4 (full_item\<lparr>confirmed_users := Some (take 3 four_users)\<rparr>) =
     (Inr (ConfirmedAt name_dan 3 icon_star), full_item)
   \<and> fst (action_confirm 9 full_item) = Inl NotRegistered
   \<and> snd (action_confirm 9 full_item) = full_item"
  using action_confirm_cases [of 4 "full_item\<lparr>confirmed_users := Some (take 3 four_users)\<rparr>"]
    action_confirm_cases [of 9 full_item]
  by (simp add: action_confirm_def full_item_def four_users_def users_of_def confirmed_of_def
      dict_has_def dict_get_def is_confirmed_def MAX_CONFIRMED_USERS_def get_user_icon_def)

subsection \<open>Removing an administrator\<close>

text \<open>
  C6, as the claim states it, fails: with the single administrator 1, the request of 1 to
  remove 2 is answered with \<open>NotModerator\<close>, not with \<open>LastModerator\<close>.
\<close>

theorem remove_admin_single_counterexample:
  "card (admins single_admin) = 1 \<and> is_admin single_admin 1
   \<and> remove_admin single_admin 1 (IntArg 2) = (Inl NotModerator, single_admin)
   \<and> fst (remove_admin single_admin 1 (IntArg 2)) \<noteq> Inl LastModerator"
  by (simp add: single_admin_def remove_admin_def is_admin_def)

text \<open>
  C6, amended. When the set of administrators has exactly one member, the request of an
  administrator to remove a target never succeeds: it fails with \<open>LastModerator\<close> when the
  target is that member and with \<open>NotModerator\<close> for any other target. In general the
  failures are \<open>Forbidden\<close> for a requester who is not an administrator, \<open>NotModerator\<close> for
  a target outside the set, \<open>LastModerator\<close> when removing the target would empty the set,
  and \<open>SelfRemoval\<close> when the target is the requester and other administrators remain;
  in every other case the target is removed.
\<close>

theorem remove_admin_cases:
  assumes "finite (admins s)"
  shows "(card (admins s) = 1 \<and> is_admin s u \<longrightarrow>
            remove_admin s u (IntArg t) =
              (if t \<in> admins s then (Inl LastModerator, s) else (Inl NotModerator, s)))
   \<and> (fst (remove_admin s u (IntArg t)) = Inl Forbidden \<longleftrightarrow> \<not> is_admin s u)
   \<and> (fst (remove_admin s u (IntArg t)) = Inl NotModerator \<longleftrightarrow> is_admin s u \<and> t \<notin> admins s)
   \<and> (fst (remove_admin s u (IntArg t)) = Inl LastModerator \<longleftrightarrow>
        is_admin s u \<and> t \<in> admins s \<and> admins s - {t} = {})
   \<and> (fst (remove_admin s u (IntArg t)) = Inl SelfRemoval \<longleftrightarrow>
        is_admin s u \<and> t = u \<and> admins s - {t} \<noteq> {})
   \<and> (is_admin s u \<and> t \<in> admins s \<and> t \<noteq> u \<longrightarrow>
        remove_admin s u (IntArg t) = (Inr AdminRemoved, s\<lparr>admins := admins s - {t}\<rparr>))"
proof -
  have small: "card (admins s) \<le> 1 \<longleftrightarrow> admins s - {t} = {}" if "t \<in> admins s"
  proof
    assume "card (admins s) \<le> 1"
    then have "\<forall>a \<in> admins s. \<forall>b \<in> admins s. a = b"
      using assms by (simp add: card_le_Suc0_iff_eq)
    then show "admins s - {t} = {}"
      using that by blast
  next
    assume "admins s - {t} = {}"
    then have "admins s = {t}"
      using that by blast
    then show "card (admins s) \<le> 1"
      by simp
  qed
  show ?thesis
  proof (cases "is_admin s u")
    case False
    then show ?thesis
      by (simp add: remove_admin_def)
  next
    case adm: True
    show ?thesis
    proof (cases "t \<in> admins s")
      case False
      then show ?thesis
        using adm by (auto simp: remove_admin_def is_admin_def)
    next
      case True
      show ?thesis
      proof (cases "admins s - {t} = {}")
        case True
        with \<open>t \<in> admins s\<close> have "admins s = {t}" by blast
        then show ?thesis
          using adm by (auto simp: remove_admin_def is_admin_def)
      next
        case False
        then have big: "\<not> card (admins s) \<le> 1"
          using small [OF \<open>t \<in> admins s\<close>] by simp
        then show ?thesis
          using adm \<open>t \<in> admins s\<close> False by (auto simp: remove_admin_def is_admin_def)
      qed
    qed
  qed
qed

theorem remove_admin_cases_witness:
  "remove_admin single_admin 1 (IntArg 1) = (Inl LastModerator, single_admin)
   \<and> remove_admin (single_admin\<lparr>admins := {1, 2}\<rparr>) 1 (IntArg 2) =
       (Inr AdminRemoved, single_admin\<lparr>admins := {1, 2} - {2}\<rparr>)"
proof -
  have f1: "finite (admins single_admin)"
    by (simp add: single_admin_def)
  have f2: "finite (admins (single_admin\<lparr>admins := {1, 2}\<rparr>))"
    by simp
  show ?thesis
    using remove_admin_cases [OF f1, of 1 1] remove_admin_cases [OF f2, of 1 2]
    by (simp add: single_admin_def is_admin_def)
qed

subsection \<open>The two removals\<close>

lemma dict_del_absent: "\<not> dict_has k d \<Longrightarrow> dict_del k d = d"
  by (induction d) (auto simp: dict_has_def dict_del_def)

lemma users_of_remove_confirmed [simp]: "users_of (remove_confirmed t pd) = users_of pd"
  by (simp add: remove_confirmed_def users_of_def split: option.splits)

lemma confirmed_of_remove_confirmed [simp]:
  "confirmed_of (remove_confirmed t pd) = filter (\<lambda>u. fst u \<noteq> t) (confirmed_of pd)"
  by (simp add: remove_confirmed_def confirmed_of_def split: option.splits)

lemma media_remove_confirmed [simp]:
  "photo (remove_confirmed t pd) = photo pd"
  "photo_file_unique_id (remove_confirmed t pd) = photo_file_unique_id pd"
  by (simp_all add: remove_confirmed_def split: option.splits)

lemma dict_del_Nil [simp]: "dict_del k [] = []"
  by (simp add: dict_del_def)

lemma users_of_remove_user [simp]: "users_of (remove_user t pd) = dict_del t (users_of pd)"
  by (simp add: remove_user_def users_of_def dict_del_absent split: option.splits)

lemma confirmed_of_remove_user [simp]: "confirmed_of (remove_user t pd) = confirmed_of pd"
  by (simp add: remove_user_def confirmed_of_def split: option.splits)

lemma media_remove_user [simp]:
  "photo (remove_user t pd) = photo pd"
  "photo_file_unique_id (remove_user t pd) = photo_file_unique_id pd"
  by (simp_all add: remove_user_def split: option.splits)

lemma filter_shorter: "length (filter (\<lambda>u. fst u \<noteq> t) cs) < length cs \<longleftrightarrow> is_confirmed t cs"
proof (induction cs)
  case Nil
  show ?case by (simp add: is_confirmed_def)
next
  case (Cons c cs)
  have "length (filter (\<lambda>u. fst u \<noteq> t) cs) \<le> length cs"
    by simp
  with Cons show ?case
    by (auto simp: is_confirmed_def less_Suc_eq_le)
qed

lemma not_confirmed_filter: "\<not> is_confirmed t (filter (\<lambda>u. fst u \<noteq> t) cs)"
  by (auto simp: is_confirmed_def)

lemma lookup_name_None:
  "lookup_name t pd = None \<longleftrightarrow>
     dict_get (users_of pd) t = None \<or> dict_get (users_of pd) t = Some []"
  by (simp add: lookup_name_def split: option.splits)

lemma lookup_name_Some:
  "lookup_name t pd = Some n \<longleftrightarrow> dict_get (users_of pd) t = Some n \<and> n \<noteq> []"
  by (auto simp: lookup_name_def split: option.splits)

lemma users_key_present: "dict_get (users_of pd) t = Some n \<Longrightarrow> users pd \<noteq> None"
  by (auto simp: users_of_def dict_get_def split: option.splits)

subsection \<open>Deletion by an administrator\<close>

text \<open>
  C3, as the claim states it, fails: user 1 is in the confirmed list of the item and not in
  its registered set; the deletion is refused with \<open>NotRegistered\<close> and the item keeps the
  confirmation.
\<close>

theorem admindeleteok_orphan_counterexample:
  "is_confirmed 1 (confirmed_of orphan_item) \<and> \<not> dict_has 1 (users_of orphan_item)
   \<and> admindeleteok 1 orphan_item = (Inl NotRegistered, orphan_item)"
  by (simp add: orphan_item_def admindeleteok_def lookup_name_def users_of_def confirmed_of_def
      dict_get_def dict_has_def is_confirmed_def)

text \<open>
  C3, amended. The deletion by an administrator fails with \<open>NotRegistered\<close> exactly when
  the user has no non-empty name in the registered set, also when the user is in the
  confirmed list, and then leaves the item unchanged; where every registered name is
  non-empty, that is exactly when the user is not in the registered set. Otherwise it
  succeeds, whether or not the user is confirmed, and removes the user from the registered
  set and from the confirmed list, keeping the other entries, their order and the media
  fields; a second deletion of the same user yields \<open>NotRegistered\<close>.
\<close>

theorem admindeleteok_cases:
  "(fst (admindeleteok t pd) = Inl NotRegistered \<longleftrightarrow>
      dict_get (users_of pd) t = None \<or> dict_get (users_of pd) t = Some [])
   \<and> (fst (admindeleteok t pd) = Inl NotRegistered \<longrightarrow> snd (admindeleteok t pd) = pd)
   \<and> ((\<forall>e \<in> set (users_of pd). snd e \<noteq> []) \<longrightarrow>
        (fst (admindeleteok t pd) = Inl NotRegistered \<longleftrightarrow> \<not> dict_has t (users_of pd)))
   \<and> (\<forall>n. dict_get (users_of pd) t = Some n \<and> n \<noteq> [] \<longrightarrow>
        fst (admindeleteok t pd) = Inr (AdminDeleted n (is_confirmed t (confirmed_of pd)) True)
        \<and> users_of (snd (admindeleteok t pd)) = dict_del t (users_of pd)
        \<and> confirmed_of (snd (admindeleteok t pd)) =
            filter (\<lambda>u. fst u \<noteq> t) (confirmed_of pd)
        \<and> photo (snd (admindeleteok t pd)) = photo pd
        \<and> photo_file_unique_id (snd (admindeleteok t pd)) = photo_file_unique_id pd
        \<and> \<not> dict_has t (users_of (snd (admindeleteok t pd)))
        \<and> \<not> is_confirmed t (confirmed_of (snd (admindeleteok t pd)))
        \<and> admindeleteok t (snd (admindeleteok t pd)) =
            (Inl NotRegistered, snd (admindeleteok t pd)))"
proof (cases "lookup_name t pd")
  case None
  then have no: "dict_get (users_of pd) t = None \<or> dict_get (users_of pd) t = Some []"
    by (simp add: lookup_name_None)
  have r: "admindeleteok t pd = (Inl NotRegistered, pd)"
    using None by (simp add: admindeleteok_def)
  have "\<not> dict_has t (users_of pd)" if ne: "\<forall>e \<in> set (users_of pd). snd e \<noteq> []"
  proof
    assume "dict_has t (users_of pd)"
    then obtain n where n: "dict_get (users_of pd) t = Some n"
      by (auto simp: dict_has_get)
    then have "(t, n) \<in> set (users_of pd)"
      by (simp add: dict_get_def map_of_SomeD)
    with ne have "n \<noteq> []" by auto
    with no n show False by simp
  qed
  then show ?thesis
    using r no by (auto simp: dict_has_get)
next
  case (Some n)
  then have n: "dict_get (users_of pd) t = Some n" "n \<noteq> []"
    by (simp_all add: lookup_name_Some)
  let ?pd' = "remove_user t (remove_confirmed t pd)"
  have conf: "(confirmed_users pd \<noteq> None
      \<and> length (filter (\<lambda>u. fst u \<noteq> t) (confirmed_of pd)) < length (confirmed_of pd))
      = is_confirmed t (confirmed_of pd)"
    by (cases "confirmed_users pd") (simp_all add: filter_shorter confirmed_of_def is_confirmed_def)
  have has: "users (remove_confirmed t pd) \<noteq> None \<and> dict_has t (users_of pd)"
    using n by (auto simp: dict_has_get remove_confirmed_def users_of_def dict_get_def
        split: option.splits)
  have r: "admindeleteok t pd =
      (Inr (AdminDeleted n (is_confirmed t (confirmed_of pd)) True), ?pd')"
    using Some conf has by (simp add: admindeleteok_def Let_def)
  have gone: "lookup_name t ?pd' = None"
    by (simp add: lookup_name_def dict_get_del)
  have again: "admindeleteok t ?pd' = (Inl NotRegistered, ?pd')"
    using gone by (simp add: admindeleteok_def)
  show ?thesis
    using r n again
    by (simp add: dict_has_get dict_get_del not_confirmed_filter)
qed

theorem admindeleteok_cases_witness:
  "fst (admindeleteok 2 full_item) = Inr (AdminDeleted name_bob True True)
   \<and> users_of (snd (admindeleteok 2 full_item)) = [(1, name_ann), (3, name_cid), (4, name_dan)]
   \<and> confirmed_of (snd (admindeleteok 2 full_item)) =
       [(1, name_ann), (3, name_cid), (4, name_dan)]
   \<and> fst (admindeleteok 2 (snd (admindeleteok 2 full_item))) = Inl NotRegistered
   \<and> fst (admindeleteok 7 full_item) = Inl NotRegistered"
proof -
  have names: "\<forall>e \<in> set (users_of full_item). snd e \<noteq> []"
    by (simp add: full_item_def four_users_def users_of_def name_ann_def name_bob_def
        name_cid_def name_dan_def)
  have two: "dict_get (users_of full_item) 2 = Some name_bob \<and> name_bob \<noteq> []"
    by (simp add: full_item_def four_users_def users_of_def dict_get_def name_bob_def)
  have seven: "\<not> dict_has 7 (users_of full_item)"
    by (simp add: full_item_def four_users_def users_of_def dict_has_def)
  have conf: "is_confirmed 2 (confirmed_of full_item)"
    by (simp add: full_item_def four_users_def confirmed_of_def is_confirmed_def)
  show ?thesis
    using admindeleteok_cases [of 2 full_item] admindeleteok_cases [of 7 full_item]
      names two seven conf
    by (simp add: full_item_def four_users_def users_of_def confirmed_of_def dict_del_def)
qed

subsection \<open>Durable storage\<close>

lemma save_item_fields [simp]:
  "users (save_item d) = None" "confirmed_users (save_item d) = None"
  "users_of (save_item d) = []" "confirmed_of (save_item d) = []"
  "photo (save_item d) \<noteq> None"
  by (simp_all add: save_item_def users_of_def confirmed_of_def saved_value_def
      split: option.splits)

lemma save_item_media:
  "photo d \<noteq> None \<Longrightarrow> photo (save_item d) = photo d"
  "photo_file_unique_id d \<noteq> None \<Longrightarrow> photo_file_unique_id (save_item d) = photo_file_unique_id d"
  by (auto simp: save_item_def saved_value_def)

lemma load_item_save_item [simp]: "load_item (save_item d) = save_item d"
  by (simp add: load_item_def save_item_def)

lemma load_save: "load_photos_data (save_photos_data ps) = map (\<lambda>e. (fst e, save_item (snd e))) ps"
proof -
  have keep: "filter (\<lambda>e. photo (snd e) \<noteq> None) (map (\<lambda>e. (fst e, save_item (snd e))) ps)
      = map (\<lambda>e. (fst e, save_item (snd e))) ps"
    by (rule filter_True) (auto simp: save_item_def saved_value_def split: option.splits)
  have ld: "map (\<lambda>e. (fst e, load_item (snd e))) (map (\<lambda>e. (fst e, save_item (snd e))) ps)
      = map (\<lambda>e. (fst e, save_item (snd e))) ps"
    by (simp add: comp_def)
  show ?thesis
    by (simp only: load_photos_data_def save_photos_data_def photos_file.case ld keep)
qed

text \<open>
  C9. What is saved holds, for every item and in the same order, the identifier and the
  two media values and neither the registered set nor the confirmed list. Loading what
  was saved gives every item back under its identifier, in the same order, with its media
  reference and check value, and with an empty registered set and an empty confirmed list.
\<close>

theorem save_load_round_trip:
  "(\<exists>c. save_photos_data ps = Content c \<and> map fst c = map fst ps
       \<and> (\<forall>e \<in> set c. users (snd e) = None \<and> confirmed_users (snd e) = None))
   \<and> map fst (load_photos_data (save_photos_data ps)) = map fst ps
   \<and> (\<forall>e \<in> set (load_photos_data (save_photos_data ps)).
        users_of (snd e) = [] \<and> confirmed_of (snd e) = [])
   \<and> (\<forall>i < length ps.
        (photo (snd (ps ! i)) \<noteq> None \<longrightarrow>
           photo (snd (load_photos_data (save_photos_data ps) ! i)) = photo (snd (ps ! i)))
        \<and> (photo_file_unique_id (snd (ps ! i)) \<noteq> None \<longrightarrow>
           photo_file_unique_id (snd (load_photos_data (save_photos_data ps) ! i)) =
             photo_file_unique_id (snd (ps ! i))))"
proof -
  have saved: "\<exists>c. save_photos_data ps = Content c \<and> map fst c = map fst ps
       \<and> (\<forall>e \<in> set c. users (snd e) = None \<and> confirmed_users (snd e) = None)"
    by (auto simp: save_photos_data_def comp_def)
  have keys: "map fst (load_photos_data (save_photos_data ps)) = map fst ps"
    by (simp add: load_save comp_def)
  have empty: "\<forall>e \<in> set (load_photos_data (save_photos_data ps)).
        users_of (snd e) = [] \<and> confirmed_of (snd e) = []"
    by (auto simp: load_save)
  have media: "\<forall>i < length ps.
        (photo (snd (ps ! i)) \<noteq> None \<longrightarrow>
           photo (snd (load_photos_data (save_photos_data ps) ! i)) = photo (snd (ps ! i)))
        \<and> (photo_file_unique_id (snd (ps ! i)) \<noteq> None \<longrightarrow>
           photo_file_unique_id (snd (load_photos_data (save_photos_data ps) ! i)) =
             photo_file_unique_id (snd (ps ! i)))"
    by (simp add: load_save save_item_media)
  from saved keys empty media show ?thesis by blast
qed

theorem save_load_round_trip_witness:
  "load_photos_data (save_photos_data [(''photo_1'', full_item)]) =
     [(''photo_1'', full_item\<lparr>users := None, confirmed_users := None\<rparr>)]
   \<and> users_of (full_item\<lparr>users := None, confirmed_users := None\<rparr>) = []
   \<and> confirmed_of (full_item\<lparr>users := None, confirmed_users := None\<rparr>) = []
   \<and> photo (full_item\<lparr>users := None, confirmed_users := None\<rparr>) = photo full_item"
  using save_load_round_trip [of "[(''photo_1'', full_item)]"]
  by (simp add: load_save save_item_def saved_value_def full_item_def users_of_def
      confirmed_of_def)

subsection \<open>Identifiers of new photos\<close>

lemma digit_char_inj: "a < 10 \<Longrightarrow> b < 10 \<Longrightarrow> digit_char a = digit_char b \<Longrightarrow> a = b"
proof -
  assume a: "a < 10" and b: "b < 10" and e: "digit_char a = digit_char b"
  from e have "(of_char (char_of (48 + a)) :: nat) = of_char (char_of (48 + b))"
    by (simp add: digit_char_def)
  then have "(48 + a) mod 256 = (48 + b) mod 256"
    by (simp only: of_char_of)
  with a b show ?thesis by simp
qed

lemma str_nat_nonempty: "str_nat n \<noteq> []"
  by (subst str_nat.simps) simp

lemma str_nat_inj: "str_nat n = str_nat m \<Longrightarrow> n = m"
proof (induction n arbitrary: m rule: str_nat.induct)
  case (1 n)
  show ?case
  proof (cases "n < 10")
    case True
    then have sn: "str_nat n = [digit_char n]" by simp
    show ?thesis
    proof (cases "m < 10")
      case mt: True
      then have "str_nat m = [digit_char m]" by simp
      with sn "1.prems" have "digit_char n = digit_char m" by simp
      then show ?thesis using True mt by (rule digit_char_inj [rotated 2])
    next
      case False
      then have "str_nat m = str_nat (m div 10) @ [digit_char (m mod 10)]"
        by (subst str_nat.simps) simp
      with sn "1.prems" have "str_nat (m div 10) = []" by simp
      then show ?thesis using str_nat_nonempty by blast
    qed
  next
    case False
    then have sn: "str_nat n = str_nat (n div 10) @ [digit_char (n mod 10)]"
      by (subst str_nat.simps) simp
    show ?thesis
    proof (cases "m < 10")
      case True
      then have "str_nat m = [digit_char m]" by simp
      with sn "1.prems" have "str_nat (n div 10) = []" by simp
      then show ?thesis using str_nat_nonempty by blast
    next
      case mf: False
      then have "str_nat m = str_nat (m div 10) @ [digit_char (m mod 10)]"
        by (subst str_nat.simps) simp
      with sn "1.prems" have eq: "str_nat (n div 10) = str_nat (m div 10)"
        "digit_char (n mod 10) = digit_char (m mod 10)" by simp_all
      have "n div 10 = m div 10"
        using "1.IH" [OF False eq(1)] .
      moreover have "n mod 10 = m mod 10"
        using eq(2) by (intro digit_char_inj) simp_all
      ultimately show ?thesis
        by (metis div_mult_mod_eq)
    qed
  qed
qed

lemma photo_name_inj: "photo_name n = photo_name m \<Longrightarrow> n = m"
  by (simp add: photo_name_def str_nat_inj)

lemma handle_photo_admin:
  "is_admin s u \<Longrightarrow>
   handle_photo s u f q =
     (Inr (PhotoAdded (photo_name (length (photos_data s) + 1))),
      s\<lparr>photos_data := dict_set (photo_name (length (photos_data s) + 1)) (new_photo f q)
                                  (photos_data s)\<rparr>)"
  by (simp add: handle_photo_def Let_def)

lemma fresh_photo_name: "\<not> dict_has (photo_name (Suc k)) (map (\<lambda>i. (photo_name i, g i)) [1..<Suc k])"
  by (auto simp: dict_has_def dest: photo_name_inj)

lemma run_Cons:
  "run alnum s (e # es) =
     (fst (step alnum s e) # fst (run alnum (snd (step alnum s e)) es),
      snd (run alnum (snd (step alnum s e)) es))"
  by (simp add: split_def Let_def)

lemma creations_follow_count:
  "is_admin s u \<Longrightarrow> map fst (photos_data s) = map photo_name [1..<Suc k]
   \<Longrightarrow> \<forall>e \<in> set es. \<exists>f q. e = Photo u f q
   \<Longrightarrow> allocation_follows_count k (fst (run alnum s es))"
proof (induction es arbitrary: s k)
  case Nil
  show ?case by simp
next
  case (Cons e es)
  from Cons.prems(3) obtain f q where e: "e = Photo u f q" by auto
  have len: "length (photos_data s) = k"
    using Cons.prems(2) by (metis length_map length_upt diff_Suc_1)
  let ?s1 = "s\<lparr>photos_data := dict_set (photo_name (Suc k)) (new_photo f q) (photos_data s)\<rparr>"
  have st: "step alnum s e = (Inr (PhotoAdded (photo_name (Suc k))), ?s1)"
    using handle_photo_admin [OF Cons.prems(1), of f q] len e by simp
  have fresh: "\<not> dict_has (photo_name (Suc k)) (photos_data s)"
    using Cons.prems(2) by (auto simp: dict_has_def dest: photo_name_inj)
  have keys: "map fst (photos_data ?s1) = map photo_name [1..<Suc (Suc k)]"
    using fresh Cons.prems(2) by (simp add: map_fst_dict_set)
  have adm: "is_admin ?s1 u"
    using Cons.prems(1) by (simp add: is_admin_def)
  have rest: "allocation_follows_count (Suc k) (fst (run alnum ?s1 es))"
    using Cons.IH [OF adm keys] Cons.prems(3) by simp
  show ?case
    using st rest by (simp add: run_Cons del: run.simps)
qed

text \<open>
  C8, as the claim states it, fails: after one photo has been added and the registry has
  been reset, the next photo is \<open>photo_1\<close> again, although one photo was created before it.
\<close>

theorem handle_photo_after_reset_counterexample:
  "fst (run ascii_alnum single_admin [Photo 1 ''f1'' ''q1'', ConfirmResetAll 1, Photo 1 ''f2'' ''q2''])
     = [Inr (PhotoAdded ''photo_1''), Inr (AllReset 1), Inr (PhotoAdded ''photo_1'')]
   \<and> \<not> allocation_follows_count 0
        (fst (run ascii_alnum single_admin
                [Photo 1 ''f1'' ''q1'', ConfirmResetAll 1, Photo 1 ''f2'' ''q2'']))"
proof -
  have n1: "photo_name (Suc 0) = ''photo_1''" by code_simp
  have n2: "photo_name (Suc (Suc 0)) = ''photo_2''" by code_simp
  have r: "fst (run ascii_alnum single_admin
                [Photo 1 ''f1'' ''q1'', ConfirmResetAll 1, Photo 1 ''f2'' ''q2''])
     = [Inr (PhotoAdded ''photo_1''), Inr (AllReset 1), Inr (PhotoAdded ''photo_1'')]"
    by (simp add: run_Cons single_admin_def handle_photo_def confirm_reset_all_def is_admin_def
        n1 Let_def del: run.simps(2))
  show ?thesis
    unfolding r by (simp add: n1 n2)
qed

lemma not_added_Cons:
  "\<forall>p. r \<noteq> Inr (PhotoAdded p) \<Longrightarrow>
   allocation_follows_count n (r # rs) = allocation_follows_count n rs"
proof (cases r)
  case (Inl e)
  then show ?thesis by simp
next
  case (Inr out)
  assume "\<forall>p. r \<noteq> Inr (PhotoAdded p)"
  with Inr show ?thesis by (cases out) simp_all
qed

lemma on_item_Some:
  "dict_get (photos_data s) p = Some pd \<Longrightarrow>
   on_item s p f = (fst (f pd), s\<lparr>photos_data := dict_set p (snd (f pd)) (photos_data s)\<rparr>)"
  by (simp add: on_item_def split_def Let_def)

lemma on_item_None: "dict_get (photos_data s) p = None \<Longrightarrow> on_item s p f = (Inl ItemNotFound, s)"
  by (simp add: on_item_def)

lemma keys_on_item: "map fst (photos_data (snd (on_item s p f))) = map fst (photos_data s)"
proof (cases "dict_get (photos_data s) p")
  case None
  then show ?thesis by (simp add: on_item_None)
next
  case (Some pd)
  then have "dict_has p (photos_data s)" by (simp add: dict_has_get)
  then show ?thesis by (simp add: on_item_Some [OF Some] map_fst_dict_set)
qed

lemma reply_on_item:
  "(\<And>pd. fst (f pd) \<noteq> Inr (PhotoAdded q)) \<Longrightarrow> fst (on_item s p f) \<noteq> Inr (PhotoAdded q)"
  by (cases "dict_get (photos_data s) p") (simp_all add: on_item_None on_item_Some)

lemma reply_action_confirm: "fst (action_confirm u pd) \<noteq> Inr (PhotoAdded q)"
  by (simp add: action_confirm_def Let_def split: option.splits)

lemma reply_register_commit: "fst (register_commit u n pd) \<noteq> Inr (PhotoAdded q)"
  by (simp add: register_commit_def Let_def)

lemma reply_confirm_delete: "fst (confirm_delete u pd) \<noteq> Inr (PhotoAdded q)"
  by (simp add: confirm_delete_def split: option.splits)

lemma reply_admindeleteok: "fst (admindeleteok u pd) \<noteq> Inr (PhotoAdded q)"
  by (simp add: admindeleteok_def Let_def split: option.splits)

lemma reply_adminunconfirmok: "fst (adminunconfirmok u pd) \<noteq> Inr (PhotoAdded q)"
  by (simp add: adminunconfirmok_def Let_def split: option.splits)

lemma handle_text_keys:
  "fst (handle_text alnum s u t) \<noteq> Inr (PhotoAdded q)
   \<and> map fst (photos_data (snd (handle_text alnum s u t))) = map fst (photos_data s)"
proof (cases "awaiting_name s u")
  case None
  then show ?thesis by (simp add: handle_text_def)
next
  case (Some p)
  let ?s1 = "s\<lparr>awaiting_name := (awaiting_name s)(u := None)\<rparr>"
  show ?thesis
  proof (cases "dict_get (photos_data s) p")
    case None
    with Some show ?thesis by (simp add: handle_text_def Let_def)
  next
    case pd: (Some pd)
    show ?thesis
    proof (cases "clean_name alnum t")
      case (Inl e)
      with Some pd show ?thesis by (simp add: handle_text_def Let_def)
    next
      case (Inr n)
      have ht: "handle_text alnum s u t = on_item ?s1 p (register_commit u n)"
        using Some pd Inr by (simp add: handle_text_def Let_def)
      show ?thesis
        using keys_on_item [of ?s1 p "register_commit u n"]
          reply_on_item [of "register_commit u n" q ?s1 p] reply_register_commit
        by (simp add: ht)
    qed
  qed
qed

text \<open>
  A handler that works on one item announces no new photo and keeps the identifiers.
\<close>

lemma on_item_quiet:
  assumes "\<And>pd q. fst (f pd) \<noteq> Inr (PhotoAdded q)"
  shows "(\<forall>q. fst (on_item s p f) \<noteq> Inr (PhotoAdded q))
         \<and> map fst (photos_data (snd (on_item s p f))) = map fst (photos_data s)"
  using assms reply_on_item [of f _ s p] keys_on_item [of s p f] by blast

lemma reset_quiet:
  assumes "\<forall>n. fst (confirm_reset_all s u) \<noteq> Inr (AllReset n)"
  shows "(\<forall>q. fst (confirm_reset_all s u) \<noteq> Inr (PhotoAdded q))
         \<and> map fst (photos_data (snd (confirm_reset_all s u))) = map fst (photos_data s)"
  using assms by (simp add: confirm_reset_all_def split: if_splits)

lemma step_keys:
  assumes keys: "map fst (photos_data s) = map photo_name [1..<Suc k]"
    and nr: "\<forall>n. fst (step alnum s e) \<noteq> Inr (AllReset n)"
  shows "(fst (step alnum s e) = Inr (PhotoAdded (photo_name (Suc k)))
          \<and> map fst (photos_data (snd (step alnum s e))) = map photo_name [1..<Suc (Suc k)])
         \<or> ((\<forall>q. fst (step alnum s e) \<noteq> Inr (PhotoAdded q))
          \<and> map fst (photos_data (snd (step alnum s e))) = map fst (photos_data s))"
proof (cases e)
  case (Start u)
  then show ?thesis by (simp add: start_def)
next
  case (AddAdmin u a)
  then show ?thesis by (simp add: add_admin_def split: cmd_arg.splits)
next
  case (RemoveAdmin u a)
  then show ?thesis by (simp add: remove_admin_def split: cmd_arg.splits)
next
  case (Photo u f q)
  show ?thesis
  proof (cases "is_admin s u")
    case False
    with Photo show ?thesis by (simp add: handle_photo_def)
  next
    case True
    have len: "length (photos_data s) = k"
      using keys by (metis length_map length_upt diff_Suc_1)
    have fresh: "\<not> dict_has (photo_name (Suc k)) (photos_data s)"
      using keys by (auto simp: dict_has_def dest: photo_name_inj)
    show ?thesis
      using handle_photo_admin [OF True, of f q] len fresh keys Photo
      by (simp add: map_fst_dict_set)
  qed
next
  case (ClearNames u)
  then show ?thesis by (simp add: clear_names_def Let_def comp_def)
next
  case (ConfirmResetAll u)
  then show ?thesis using nr reset_quiet [of s u] by simp
next
  case (RegisterButton u p)
  then show ?thesis by (simp add: action_register_def split: option.splits)
next
  case (Text u t)
  then show ?thesis using handle_text_keys [of alnum s u t] by simp
next
  case (ConfirmButton u p)
  show ?thesis
  proof (cases "p = ''reset_all''")
    case True
    then show ?thesis
      using ConfirmButton nr reset_quiet [of s u] by (simp add: button_confirm_def)
  next
    case False
    show ?thesis
    proof (cases "take 7 p = ''delete_''")
      case True
      then show ?thesis
        using ConfirmButton False
          on_item_quiet [of "confirm_delete u" s, OF reply_confirm_delete]
        by (simp add: button_confirm_def button_confirm_delete_def)
    next
      case nd: False
      then show ?thesis
        using ConfirmButton False
          on_item_quiet [of "action_confirm u" s, OF reply_action_confirm]
        by (simp add: button_confirm_def)
    qed
  qed
next
  case (ConfirmDeleteButton u p)
  then show ?thesis
    using on_item_quiet [of "confirm_delete u" s, OF reply_confirm_delete]
    by (simp add: button_confirm_delete_def)
next
  case (AdminDeleteOk u n t)
  then show ?thesis
    using on_item_quiet [of "admindeleteok t" s, OF reply_admindeleteok]
    by (simp add: button_admindeleteok_def)
next
  case (AdminUnconfirmOk u n t)
  then show ?thesis
    using on_item_quiet [of "adminunconfirmok t" s, OF reply_adminunconfirmok]
    by (simp add: button_adminunconfirmok_def)
qed

lemma runs_follow_count:
  "map fst (photos_data s) = map photo_name [1..<Suc k]
   \<Longrightarrow> \<forall>r \<in> set (fst (run alnum s es)). \<forall>n. r \<noteq> Inr (AllReset n)
   \<Longrightarrow> allocation_follows_count k (fst (run alnum s es))"
proof (induction es arbitrary: s k)
  case Nil
  show ?case by simp
next
  case (Cons e es)
  let ?r = "fst (step alnum s e)" and ?s1 = "snd (step alnum s e)"
  have rc: "fst (run alnum s (e # es)) = ?r # fst (run alnum ?s1 es)"
    by (simp add: run_Cons del: run.simps)
  have nr: "\<forall>n. ?r \<noteq> Inr (AllReset n)"
    and nrs: "\<forall>r \<in> set (fst (run alnum ?s1 es)). \<forall>n. r \<noteq> Inr (AllReset n)"
    using Cons.prems(2) unfolding rc by simp_all
  from step_keys [OF Cons.prems(1) nr]
  show ?case
  proof
    assume a: "?r = Inr (PhotoAdded (photo_name (Suc k)))
          \<and> map fst (photos_data ?s1) = map photo_name [1..<Suc (Suc k)]"
    then have "allocation_follows_count (Suc k) (fst (run alnum ?s1 es))"
      using Cons.IH [of ?s1 "Suc k"] nrs by blast
    then show ?thesis
      unfolding rc using a by simp
  next
    assume b: "(\<forall>q. ?r \<noteq> Inr (PhotoAdded q))
          \<and> map fst (photos_data ?s1) = map fst (photos_data s)"
    then have "allocation_follows_count k (fst (run alnum ?s1 es))"
      using Cons.IH [of ?s1 k] nrs Cons.prems(1) by simp
    then show ?thesis
      unfolding rc using b not_added_Cons [of ?r k] by blast
  qed
qed

text \<open>
  C8, amended. A photo sent by an administrator gets the identifier \<open>photo_<n>\<close> where
  \<open>n\<close> is the number of items that \<open>photos_data\<close> holds at that moment plus one, and is
  stored under it. In every run of updates that starts with an empty registry and in
  which no reset is carried out, this is the count of photos created so far plus one.
\<close>

theorem handle_photo_identifier:
  "(is_admin s u \<longrightarrow>
      fst (handle_photo s u f q) = Inr (PhotoAdded (photo_name (length (photos_data s) + 1)))
      \<and> dict_get (photos_data (snd (handle_photo s u f q)))
           (photo_name (length (photos_data s) + 1)) = Some (new_photo f q))
   \<and> (photos_data s = [] \<and> (\<forall>r \<in> set (fst (run alnum s es)). \<forall>n. r \<noteq> Inr (AllReset n)) \<longrightarrow>
        allocation_follows_count 0 (fst (run alnum s es)))"
proof -
  have one: "fst (handle_photo s u f q) = Inr (PhotoAdded (photo_name (length (photos_data s) + 1)))
      \<and> dict_get (photos_data (snd (handle_photo s u f q)))
           (photo_name (length (photos_data s) + 1)) = Some (new_photo f q)"
    if "is_admin s u"
    using handle_photo_admin [OF that, of f q] by (simp add: dict_get_set)
  have many: "allocation_follows_count 0 (fst (run alnum s es))"
    if "photos_data s = []" "\<forall>r \<in> set (fst (run alnum s es)). \<forall>n. r \<noteq> Inr (AllReset n)"
    using runs_follow_count [of s 0 alnum es] that by simp
  from one many show ?thesis by blast
qed

theorem handle_photo_identifier_witness:
  "fst (handle_photo (single_admin\<lparr>photos_data := [(''photo_1'', full_item)]\<rparr>) 1 ''f2'' ''q2'')
     = Inr (PhotoAdded ''photo_2'')
   \<and> fst (run ascii_alnum single_admin
            [Photo 1 ''f1'' ''q1'', ConfirmButton 5 ''photo_1'', Photo 2 ''f0'' ''q0'',
             Photo 1 ''f2'' ''q2''])
       = [Inr (PhotoAdded ''photo_1''), Inl NotRegistered, Inl Forbidden,
          Inr (PhotoAdded ''photo_2'')]
   \<and> allocation_follows_count 0
       (fst (run ascii_alnum single_admin
               [Photo 1 ''f1'' ''q1'', ConfirmButton 5 ''photo_1'', Photo 2 ''f0'' ''q0'',
                Photo 1 ''f2'' ''q2'']))"
proof -
  have n1: "photo_name (Suc 0) = ''photo_1''" by code_simp
  have n2: "photo_name (Suc (Suc 0)) = ''photo_2''" by code_simp
  have adm: "is_admin (single_admin\<lparr>photos_data := [(''photo_1'', full_item)]\<rparr>) 1"
    by (simp add: single_admin_def is_admin_def)
  have r: "fst (run ascii_alnum single_admin
            [Photo 1 ''f1'' ''q1'', ConfirmButton 5 ''photo_1'', Photo 2 ''f0'' ''q0'',
             Photo 1 ''f2'' ''q2''])
       = [Inr (PhotoAdded ''photo_1''), Inl NotRegistered, Inl Forbidden,
          Inr (PhotoAdded ''photo_2'')]"
    by (simp add: run_Cons single_admin_def handle_photo_def is_admin_def n1 n2 Let_def
        button_confirm_def on_item_def dict_get_def action_confirm_def new_photo_def
        users_of_def dict_has_def del: run.simps(2))
  have e: "photos_data single_admin = []"
    by (simp add: single_admin_def)
  show ?thesis
    using handle_photo_identifier [of "single_admin\<lparr>photos_data := [(''photo_1'', full_item)]\<rparr>"
        1 "''f2''" "''q2''" ascii_alnum "[]"]
      handle_photo_identifier [of single_admin 1 "''f2''" "''q2''" ascii_alnum
        "[Photo 1 ''f1'' ''q1'', ConfirmButton 5 ''photo_1'', Photo 2 ''f0'' ''q0'',
          Photo 1 ''f2'' ''q2'']"]
      adm e
    unfolding r by (simp add: n2)
qed

subsection \<open>Validation of names\<close>

lemma escape_char_nonempty: "escape_char c \<noteq> []"
  by (simp add: escape_char_def)

lemma escape_html_nonempty: "c \<noteq> [] \<Longrightarrow> escape_html c \<noteq> []"
  by (cases c) (simp_all add: escape_html_def escape_char_nonempty)

lemma length_escape_html: "length c \<le> length (escape_html c)"
proof (induction c)
  case Nil
  show ?case by (simp add: escape_html_def)
next
  case (Cons x xs)
  have "1 \<le> length (escape_char x)"
    by (simp add: escape_char_def)
  with Cons show ?case
    by (simp add: escape_html_def)
qed

lemma escape_html_plain:
  "\<forall>x \<in> set c. x \<noteq> 34 \<and> x \<noteq> 38 \<and> x \<noteq> 39 \<and> x \<noteq> 60 \<and> x \<noteq> 62 \<Longrightarrow> escape_html c = c"
  by (induction c) (simp_all add: escape_html_def escape_char_def)

lemma clean_name_Inr:
  "clean_name alnum text = Inr n \<Longrightarrow> \<exists>c. n = escape_html c \<and> c \<noteq> [] \<and> length c \<le> 20"
proof -
  assume r: "clean_name alnum text = Inr n"
  let ?c = "clean_text alnum (strip text)"
  let ?c' = "if length ?c > 20 then take 20 ?c else ?c"
  from r have ne: "?c \<noteq> []" and n: "n = escape_html ?c'"
    by (auto simp: clean_name_def Let_def split: if_splits)
  have "?c' \<noteq> [] \<and> length ?c' \<le> 20"
    using ne by auto
  with n show ?thesis by blast
qed

lemma clean_name_Inl:
  "(\<exists>e. clean_name alnum text = Inl e) \<longleftrightarrow>
     strip text = [] \<or> length (strip text) < 2 \<or> length (strip text) > 20
     \<or> clean_text alnum (strip text) = []"
  by (auto simp: clean_name_def Let_def)

lemma register_commit_users:
  "users_of (snd (register_commit u n pd)) = dict_set u n (users_of pd)"
  by (simp add: register_commit_def Let_def)

lemma register_commit_Inr: "\<exists>out. fst (register_commit u n pd) = Inr out"
  by (simp add: register_commit_def Let_def)

lemma handle_text_invalid:
  "clean_name alnum text = Inl e \<Longrightarrow>
   photos_data (snd (handle_text alnum s u text)) = photos_data s
   \<and> (awaiting_name s u \<noteq> None \<longrightarrow> (\<exists>e'. fst (handle_text alnum s u text) = Inl e'))"
  by (auto simp: handle_text_def Let_def split: option.splits)

lemma handle_text_Inr:
  assumes "fst (handle_text alnum s u text) = Inr out"
  shows "\<exists>p pd n. awaiting_name s u = Some p \<and> dict_get (photos_data s) p = Some pd
           \<and> clean_name alnum text = Inr n
           \<and> handle_text alnum s u text =
               (fst (register_commit u n pd),
                s\<lparr>awaiting_name := (awaiting_name s)(u := None),
                  photos_data := dict_set p (snd (register_commit u n pd)) (photos_data s)\<rparr>)"
proof (cases "awaiting_name s u")
  case None
  with assms show ?thesis by (simp add: handle_text_def)
next
  case (Some p)
  show ?thesis
  proof (cases "dict_get (photos_data s) p")
    case None
    with assms Some show ?thesis by (simp add: handle_text_def Let_def)
  next
    case pd: (Some pd)
    show ?thesis
    proof (cases "clean_name alnum text")
      case (Inl e)
      with assms Some pd show ?thesis by (simp add: handle_text_def Let_def)
    next
      case (Inr n)
      let ?s1 = "s\<lparr>awaiting_name := (awaiting_name s)(u := None)\<rparr>"
      have "dict_get (photos_data ?s1) p = Some pd"
        using pd by simp
      from on_item_Some [OF this, of "register_commit u n"]
      have "handle_text alnum s u text =
               (fst (register_commit u n pd),
                s\<lparr>awaiting_name := (awaiting_name s)(u := None),
                  photos_data := dict_set p (snd (register_commit u n pd)) (photos_data s)\<rparr>)"
        using Some pd Inr by (simp add: handle_text_def Let_def)
      then show ?thesis
        using Some pd Inr by blast
    qed
  qed
qed

lemma length_strip_tags: "length (strip_tags x) \<le> length x"
proof (induction x rule: strip_tags.induct)
  case 1
  show ?case by simp
next
  case (2 c cs)
  show ?case
  proof (cases "c = 60 \<and> takeWhile (\<lambda>x. x \<noteq> 62) cs \<noteq> [] \<and> dropWhile (\<lambda>x. x \<noteq> 62) cs \<noteq> []")
    case True
    have "length (tl (dropWhile (\<lambda>x. x \<noteq> 62) cs)) \<le> length cs"
      using length_dropWhile_le [of "\<lambda>x. x \<noteq> 62" cs] by simp
    with "2.IH"(1) [OF True] True show ?thesis by simp
  next
    case False
    with "2.IH"(2) [OF False] show ?thesis by auto
  qed
qed

lemma length_join_space_Cons:
  "length (join_space (w # ws)) \<le> length w + 1 + length (join_space ws)"
  by (cases ws) simp_all

lemma length_join_split: "length (join_space (split_ws cur y)) \<le> length cur + length y"
proof (induction y arbitrary: cur)
  case Nil
  show ?case by simp
next
  case (Cons c cs)
  show ?case
  proof (cases "is_space c")
    case False
    with Cons [of "cur @ [c]"] show ?thesis by simp
  next
    case True
    show ?thesis
    proof (cases "cur = []")
      case e: True
      with True Cons [of "[]"] show ?thesis by simp
    next
      case False
      have "length (join_space (cur # split_ws [] cs))
              \<le> length cur + 1 + length (join_space (split_ws [] cs))"
        by (rule length_join_space_Cons)
      with Cons [of "[]"] True False show ?thesis by simp
    qed
  qed
qed

lemma length_clean_text: "length (clean_text alnum x) \<le> length x"
proof -
  have "length (clean_text alnum x) \<le> length (filter (allowed_char alnum) (strip_tags x))"
    using length_join_split [of "[]"] by (simp add: clean_text_def)
  also have "\<dots> \<le> length (strip_tags x)" by simp
  also have "\<dots> \<le> length x" by (rule length_strip_tags)
  finally show ?thesis .
qed

lemma clean_name_Inr_text:
  assumes "clean_name alnum text = Inr n"
  shows "n = escape_html (clean_text alnum (strip text)) \<and> clean_text alnum (strip text) \<noteq> []
         \<and> length (clean_text alnum (strip text)) \<le> 20"
proof -
  let ?c = "clean_text alnum (strip text)"
  from assms have len: "length (strip text) \<le> 20" and ne: "?c \<noteq> []"
    and n: "n = escape_html (if length ?c > 20 then take 20 ?c else ?c)"
    by (auto simp: clean_name_def Let_def split: if_splits)
  have "length ?c \<le> 20"
    using length_clean_text [of alnum "strip text"] len by simp
  with n ne show ?thesis by simp
qed

lemma length_escape_html_exact:
  "length (escape_html c) =
     length c + 4 * count_list c 39 + 4 * count_list c 38 + 3 * count_list c 60
     + 3 * count_list c 62 + 5 * count_list c 34"
  by (induction c) (simp_all add: escape_html_def escape_char_def)

lemma escape_strict:
  assumes "\<exists>x \<in> set c. x = 34 \<or> x = 38 \<or> x = 39 \<or> x = 60 \<or> x = 62"
  shows "length c < length (escape_html c)"
proof -
  from assms obtain x where x: "x \<in> set c" "x = 34 \<or> x = 38 \<or> x = 39 \<or> x = 60 \<or> x = 62"
    by blast
  then obtain ys zs where c: "c = ys @ x # zs"
    by (auto simp: in_set_conv_decomp)
  have "length (escape_char x) \<ge> 2"
    using x(2) by (auto simp: escape_char_def)
  moreover have "length ys \<le> length (escape_html ys)" "length zs \<le> length (escape_html zs)"
    by (rule length_escape_html)+
  moreover have "escape_html c = escape_html ys @ escape_char x @ escape_html zs"
    by (simp add: c escape_html_def)
  ultimately show ?thesis
    by (simp add: c)
qed

text \<open>
  C10, as the claim states it, fails in its last part: the accepted text
  \<open>O'Brien-O'Connor\<close> has 16 characters, and the name stored for it has 24, because each
  apostrophe is stored as \<open>&#39;\<close>.
\<close>

theorem handle_text_long_name_counterexample:
  "length name_obrien = 16
   \<and> users_of (snd (hd (photos_data (snd (handle_text ascii_alnum awaiting_state 5 name_obrien)))))
       = [(5, [79, 38, 35, 51, 57, 59, 66, 114, 105, 101, 110, 45,
               79, 38, 35, 51, 57, 59, 67, 111, 110, 110, 111, 114])]
   \<and> \<not> length [79, 38, 35, 51, 57, 59, 66, 114, 105, 101, 110, 45,
                79, 38, 35, 51, 57, 59, 67, 111, 110, 110, 111, 114 :: nat] \<le> 20"
proof -
  have c: "clean_name ascii_alnum name_obrien =
      Inr [79, 38, 35, 51, 57, 59, 66, 114, 105, 101, 110, 45,
           79, 38, 35, 51, 57, 59, 67, 111, 110, 110, 111, 114]"
    by (simp add: clean_name_def name_obrien_def strip_def is_space_def clean_text_def
        allowed_char_def ascii_alnum_def escape_html_def escape_char_def Let_def)
  show ?thesis
    by (simp add: handle_text_def awaiting_state_def c on_item_def dict_get_def
        register_commit_users new_photo_def split_def Let_def)
       (simp add: name_obrien_def users_of_def)
qed

text \<open>
  C10, amended. When the trimmed text is empty, shorter than 2 or longer than 20
  characters, or empty after the removal of tags and characters, \<open>handle_text\<close> changes no
  item, and where a name was awaited it answers with an error. A name that is stored is
  not empty and is the escaped form of the cleaned text of the message, and that cleaned
  text is not empty and has at most 20 characters. The escaped form is as long as the
  cleaned text plus four characters for each apostrophe and each \<open>&\<close>, three for each
  \<open><\<close> and \<open>>\<close> and five for each double quote that the cleaned text holds: it is the
  cleaned text itself, hence at most 20 characters long, when there is no such character,
  and strictly longer than the cleaned text when there is one.
\<close>

theorem handle_text_validation:
  "((strip text = [] \<or> length (strip text) < 2 \<or> length (strip text) > 20
      \<or> clean_text alnum (strip text) = []) \<longrightarrow>
      photos_data (snd (handle_text alnum s u text)) = photos_data s
      \<and> (awaiting_name s u \<noteq> None \<longrightarrow> (\<exists>e. fst (handle_text alnum s u text) = Inl e)))
   \<and> (\<forall>out. fst (handle_text alnum s u text) = Inr out \<longrightarrow>
        (\<exists>p pd'. awaiting_name s u = Some p
           \<and> dict_get (photos_data (snd (handle_text alnum s u text))) p = Some pd'
           \<and> dict_get (users_of pd') u = Some (escape_html (clean_text alnum (strip text))))
        \<and> clean_text alnum (strip text) \<noteq> []
        \<and> length (clean_text alnum (strip text)) \<le> 20
        \<and> escape_html (clean_text alnum (strip text)) \<noteq> [])
   \<and> length (escape_html c) =
        length c + 4 * count_list c 39 + 4 * count_list c 38 + 3 * count_list c 60
        + 3 * count_list c 62 + 5 * count_list c 34
   \<and> ((\<forall>x \<in> set c. x \<noteq> 34 \<and> x \<noteq> 38 \<and> x \<noteq> 39 \<and> x \<noteq> 60 \<and> x \<noteq> 62) \<longrightarrow> escape_html c = c)
   \<and> ((\<exists>x \<in> set c. x = 34 \<or> x = 38 \<or> x = 39 \<or> x = 60 \<or> x = 62) \<longrightarrow>
        length c < length (escape_html c))"
proof -
  have bad: "photos_data (snd (handle_text alnum s u text)) = photos_data s
      \<and> (awaiting_name s u \<noteq> None \<longrightarrow> (\<exists>e. fst (handle_text alnum s u text) = Inl e))"
    if "strip text = [] \<or> length (strip text) < 2 \<or> length (strip text) > 20
      \<or> clean_text alnum (strip text) = []"
  proof -
    from that obtain e where "clean_name alnum text = Inl e"
      using clean_name_Inl [of alnum "text"] by blast
    then show ?thesis by (rule handle_text_invalid)
  qed
  have good: "(\<exists>p pd'. awaiting_name s u = Some p
           \<and> dict_get (photos_data (snd (handle_text alnum s u text))) p = Some pd'
           \<and> dict_get (users_of pd') u = Some (escape_html (clean_text alnum (strip text))))
        \<and> clean_text alnum (strip text) \<noteq> []
        \<and> length (clean_text alnum (strip text)) \<le> 20
        \<and> escape_html (clean_text alnum (strip text)) \<noteq> []"
    if "fst (handle_text alnum s u text) = Inr out" for out
  proof -
    from handle_text_Inr [OF that] obtain p pd n where
      aw: "awaiting_name s u = Some p" and cn: "clean_name alnum text = Inr n"
      and ht: "handle_text alnum s u text =
               (fst (register_commit u n pd),
                s\<lparr>awaiting_name := (awaiting_name s)(u := None),
                  photos_data := dict_set p (snd (register_commit u n pd)) (photos_data s)\<rparr>)"
      by blast
    from clean_name_Inr_text [OF cn] have
      c: "n = escape_html (clean_text alnum (strip text))" "clean_text alnum (strip text) \<noteq> []"
        "length (clean_text alnum (strip text)) \<le> 20" by simp_all
    let ?pd' = "snd (register_commit u n pd)"
    have "dict_get (photos_data (snd (handle_text alnum s u text))) p = Some ?pd'"
      by (simp add: ht dict_get_set)
    moreover have "dict_get (users_of ?pd') u = Some (escape_html (clean_text alnum (strip text)))"
      by (simp add: register_commit_users dict_get_set c(1))
    ultimately show ?thesis
      using aw c(2,3) escape_html_nonempty [OF c(2)] by blast
  qed
  have plain: "escape_html c = c"
    if "\<forall>x \<in> set c. x \<noteq> 34 \<and> x \<noteq> 38 \<and> x \<noteq> 39 \<and> x \<noteq> 60 \<and> x \<noteq> 62"
    using that by (rule escape_html_plain)
  have strict: "length c < length (escape_html c)"
    if "\<exists>x \<in> set c. x = 34 \<or> x = 38 \<or> x = 39 \<or> x = 60 \<or> x = 62"
    using that by (rule escape_strict)
  from bad good plain strict length_escape_html_exact [of c] show ?thesis by blast
qed

theorem handle_text_validation_witness:
  "photos_data (snd (handle_text ascii_alnum awaiting_state 5 [32, 65, 32])) =
     photos_data awaiting_state
   \<and> fst (handle_text ascii_alnum awaiting_state 5 [32, 65, 32]) = Inl NameTooShort
   \<and> fst (handle_text ascii_alnum awaiting_state 5 name_ann) =
       Inr (AutoConfirmed name_ann 0 icon_sun)
   \<and> users_of (snd (hd (photos_data (snd (handle_text ascii_alnum awaiting_state 5 name_ann)))))
       = [(5, name_ann)]
   \<and> escape_html name_ann = name_ann
   \<and> length name_obrien < length (escape_html name_obrien)
   \<and> length (escape_html name_obrien) = 24"
proof -
  have short: "strip [32, 65, 32] = [65]"
    by (simp add: strip_def is_space_def)
  have bad: "clean_name ascii_alnum [32, 65, 32] = Inl NameTooShort"
    by (simp add: clean_name_def short)
  have ok: "clean_name ascii_alnum name_ann = Inr name_ann"
    by (simp add: clean_name_def name_ann_def strip_def is_space_def clean_text_def
        allowed_char_def ascii_alnum_def escape_html_def escape_char_def Let_def)
  have aw: "awaiting_name awaiting_state 5 \<noteq> None"
    by (simp add: awaiting_state_def)
  have plain: "\<forall>x \<in> set name_ann. x \<noteq> 34 \<and> x \<noteq> 38 \<and> x \<noteq> 39 \<and> x \<noteq> 60 \<and> x \<noteq> 62"
    by (simp add: name_ann_def)
  have apo: "\<exists>x \<in> set name_obrien. x = 34 \<or> x = 38 \<or> x = 39 \<or> x = 60 \<or> x = 62"
    by (simp add: name_obrien_def)
  have cnt: "length name_obrien = 16 \<and> count_list name_obrien 39 = 2
      \<and> count_list name_obrien 38 = 0 \<and> count_list name_obrien 60 = 0
      \<and> count_list name_obrien 62 = 0 \<and> count_list name_obrien 34 = 0"
    by (simp add: name_obrien_def)
  show ?thesis
    using handle_text_validation [of "[32, 65, 32]" ascii_alnum awaiting_state 5 name_ann]
      handle_text_validation [of name_ann ascii_alnum awaiting_state 5 name_obrien]
      short aw plain apo cnt
    by (simp add: handle_text_def awaiting_state_def bad ok on_item_def dict_get_def
        register_commit_def new_photo_def users_of_def confirmed_of_def is_confirmed_def
        MAX_CONFIRMED_USERS_def get_user_icon_def Let_def)
qed

subsection \<open>The invariant of the items\<close>

lemma item_inv_confirmed_registered:
  "item_inv pd \<Longrightarrow> is_confirmed u (confirmed_of pd) \<Longrightarrow> dict_has u (users_of pd)"
  by (auto simp: item_inv_def is_confirmed_def dict_has_get)

lemma item_inv_action_confirm: "item_inv pd \<Longrightarrow> item_inv (snd (action_confirm u pd))"
  by (auto simp: action_confirm_def item_inv_def is_confirmed_def Let_def
      MAX_CONFIRMED_USERS_def split: option.splits)

lemma users_of_action_confirm [simp]: "users_of (snd (action_confirm u pd)) = users_of pd"
  by (simp add: action_confirm_def Let_def split: option.splits)

lemma confirmed_of_register_commit:
  "confirmed_of (snd (register_commit u n pd)) =
     (if \<not> is_confirmed u (confirmed_of pd) \<and> length (confirmed_of pd) < MAX_CONFIRMED_USERS
      then confirmed_of pd @ [(u, n)] else confirmed_of pd)"
  by (simp add: register_commit_def Let_def)

lemma item_inv_register_commit:
  assumes "item_inv pd" and "\<not> dict_has u (users_of pd)"
  shows "item_inv (snd (register_commit u n pd))"
proof -
  have nc: "\<not> is_confirmed u (confirmed_of pd)"
    using assms item_inv_confirmed_registered by blast
  then have other: "\<forall>e \<in> set (confirmed_of pd). fst e \<noteq> u"
    by (auto simp: is_confirmed_def)
  show ?thesis
    using assms(1) nc other
    by (auto simp: item_inv_def confirmed_of_register_commit register_commit_users
        dict_get_set is_confirmed_def)
qed

lemma names_ok_register_commit:
  "names_ok pd \<Longrightarrow> n \<noteq> [] \<Longrightarrow> names_ok (snd (register_commit u n pd))"
  by (auto simp: names_ok_def register_commit_users dest: set_dict_set)

lemma item_inv_removed:
  assumes "item_inv pd"
  shows "item_inv (remove_user t (remove_confirmed t pd))"
  using assms
  by (auto simp: item_inv_def dict_get_del distinct_map_filter intro: le_trans [OF length_filter_le])

lemma names_ok_removed: "names_ok pd \<Longrightarrow> names_ok (remove_user t (remove_confirmed t pd))"
  by (auto simp: names_ok_def dict_del_def)

lemma snd_confirm_delete:
  "snd (confirm_delete u pd) = pd \<or> snd (confirm_delete u pd) = remove_user u (remove_confirmed u pd)"
  by (simp add: confirm_delete_def split: option.splits)

lemma snd_admindeleteok:
  "snd (admindeleteok u pd) = pd \<or> snd (admindeleteok u pd) = remove_user u (remove_confirmed u pd)"
  by (simp add: admindeleteok_def Let_def split: option.splits)

lemma adminunconfirmok_fields:
  "users_of (snd (adminunconfirmok t pd)) = users_of pd"
  "confirmed_of (snd (adminunconfirmok t pd)) = confirmed_of pd
   \<or> confirmed_of (snd (adminunconfirmok t pd)) = filter (\<lambda>u. fst u \<noteq> t) (confirmed_of pd)"
  by (auto simp: adminunconfirmok_def Let_def confirmed_of_def split: option.splits)

lemma item_inv_adminunconfirmok: "item_inv pd \<Longrightarrow> item_inv (snd (adminunconfirmok t pd))"
  using adminunconfirmok_fields [of t pd]
  by (auto simp: item_inv_def distinct_map_filter intro: le_trans [OF length_filter_le])

lemma names_ok_adminunconfirmok: "names_ok pd \<Longrightarrow> names_ok (snd (adminunconfirmok t pd))"
  by (simp add: names_ok_def adminunconfirmok_fields)

lemma item_inv_clear_item: "item_inv pd \<Longrightarrow> item_inv (clear_item pd)"
  by (simp add: clear_item_def item_inv_def)

lemma names_ok_clear_item: "names_ok pd \<Longrightarrow> names_ok (clear_item pd)"
  by (simp add: clear_item_def names_ok_def)

lemma item_inv_new_photo: "item_inv (new_photo f q) \<and> names_ok (new_photo f q)"
  by (simp add: new_photo_def item_inv_def names_ok_def users_of_def confirmed_of_def)


lemma dict_get_map_snd:
  "dict_get (map (\<lambda>e. (fst e, g (snd e))) d) p = map_option g (dict_get d p)"
  by (induction d) (auto simp: dict_get_def)

lemma users_of_clear_item: "dict_has v (users_of (clear_item pd)) \<Longrightarrow> dict_has v (users_of pd)"
  by (auto simp: clear_item_def dict_has_def split: if_splits)

lemma set_photos_dict_set:
  assumes "\<forall>e \<in> set d. P (snd e)" and "P v"
  shows "\<forall>e \<in> set (dict_set k v d). P (snd e)"
  using assms by (auto dest: set_dict_set)

lemma dict_get_in_set: "dict_get d k = Some v \<Longrightarrow> (k, v) \<in> set d"
  by (simp add: dict_get_def map_of_SomeD)

lemma on_item_inv:
  assumes inv: "bot_inv s"
    and f_inv: "\<And>pd. item_inv pd \<Longrightarrow> names_ok pd \<Longrightarrow>
                  item_inv (snd (f pd)) \<and> names_ok (snd (f pd))"
    and f_users: "\<And>pd v. dict_has v (users_of (snd (f pd))) \<Longrightarrow> dict_has v (users_of pd)"
  shows "bot_inv (snd (on_item s p f))"
proof (cases "dict_get (photos_data s) p")
  case None
  then show ?thesis using inv by (simp add: on_item_None)
next
  case (Some pd)
  then have "(p, pd) \<in> set (photos_data s)" by (rule dict_get_in_set)
  then have pd: "item_inv pd" "names_ok pd"
    using inv by (auto simp: bot_inv_def)
  have items: "\<forall>e \<in> set (dict_set p (snd (f pd)) (photos_data s)).
      item_inv (snd e) \<and> names_ok (snd e)"
    using inv f_inv [OF pd] by (intro set_photos_dict_set) (auto simp: bot_inv_def)
  have gate: "gate_inv (s\<lparr>photos_data := dict_set p (snd (f pd)) (photos_data s)\<rparr>)"
    unfolding gate_inv_def
  proof (intro allI impI)
    fix u q pd'
    assume aw: "awaiting_name (s\<lparr>photos_data := dict_set p (snd (f pd)) (photos_data s)\<rparr>) u = Some q"
      and g: "dict_get (photos_data (s\<lparr>photos_data := dict_set p (snd (f pd)) (photos_data s)\<rparr>)) q
               = Some pd'"
    show "\<not> dict_has u (users_of pd')"
    proof (cases "q = p")
      case True
      then have "pd' = snd (f pd)"
        using g by (simp add: dict_get_set)
      moreover have "\<not> dict_has u (users_of pd)"
        using inv aw Some True by (auto simp: bot_inv_def gate_inv_def)
      ultimately show ?thesis
        using f_users by blast
    next
      case False
      then have "dict_get (photos_data s) q = Some pd'"
        using g by (simp add: dict_get_set)
      then show ?thesis
        using inv aw by (auto simp: bot_inv_def gate_inv_def)
    qed
  qed
  show ?thesis
    using items gate by (simp add: on_item_Some [OF Some] bot_inv_def)
qed

lemma users_confirm_delete:
  "dict_has v (users_of (snd (confirm_delete u pd))) \<Longrightarrow> dict_has v (users_of pd)"
  using snd_confirm_delete [of u pd] by (auto simp: dict_has_del)

lemma users_admindeleteok:
  "dict_has v (users_of (snd (admindeleteok u pd))) \<Longrightarrow> dict_has v (users_of pd)"
  using snd_admindeleteok [of u pd] by (auto simp: dict_has_del)

lemma inv_confirm_delete:
  "item_inv pd \<Longrightarrow> names_ok pd \<Longrightarrow>
   item_inv (snd (confirm_delete u pd)) \<and> names_ok (snd (confirm_delete u pd))"
  using snd_confirm_delete [of u pd] item_inv_removed [of pd u] names_ok_removed [of pd u]
  by auto

lemma inv_admindeleteok:
  "item_inv pd \<Longrightarrow> names_ok pd \<Longrightarrow>
   item_inv (snd (admindeleteok u pd)) \<and> names_ok (snd (admindeleteok u pd))"
  using snd_admindeleteok [of u pd] item_inv_removed [of pd u] names_ok_removed [of pd u]
  by auto

lemma bot_inv_handle_photo: "bot_inv s \<Longrightarrow> bot_inv (snd (handle_photo s u f q))"
proof (cases "is_admin s u")
  case False
  assume "bot_inv s"
  with False show ?thesis by (simp add: handle_photo_def)
next
  case True
  assume inv: "bot_inv s"
  let ?k = "photo_name (length (photos_data s) + 1)"
  have items: "\<forall>e \<in> set (dict_set ?k (new_photo f q) (photos_data s)).
      item_inv (snd e) \<and> names_ok (snd e)"
    using inv item_inv_new_photo [of f q]
    by (intro set_photos_dict_set) (auto simp: bot_inv_def)
  have gate: "gate_inv (s\<lparr>photos_data := dict_set ?k (new_photo f q) (photos_data s)\<rparr>)"
    unfolding gate_inv_def
  proof (intro allI impI)
    fix v p pd
    assume aw: "awaiting_name (s\<lparr>photos_data := dict_set ?k (new_photo f q) (photos_data s)\<rparr>) v
                 = Some p"
      and g: "dict_get (photos_data (s\<lparr>photos_data := dict_set ?k (new_photo f q) (photos_data s)\<rparr>)) p
               = Some pd"
    show "\<not> dict_has v (users_of pd)"
    proof (cases "p = ?k")
      case True
      then have "pd = new_photo f q"
        using g by (simp add: dict_get_set)
      then show ?thesis
        by (simp add: new_photo_def users_of_def dict_has_def)
    next
      case False
      then have "dict_get (photos_data s) p = Some pd"
        using g by (simp add: dict_get_set)
      then show ?thesis
        using inv aw by (auto simp: bot_inv_def gate_inv_def)
    qed
  qed
  show ?thesis
    using items gate by (simp add: handle_photo_admin [OF True] bot_inv_def)
qed

lemma bot_inv_clear_names: "bot_inv s \<Longrightarrow> bot_inv (snd (clear_names s u))"
proof -
  assume inv: "bot_inv s"
  let ?s' = "s\<lparr>photos_data := map (\<lambda>e. (fst e, clear_item (snd e))) (photos_data s)\<rparr>"
  have items: "\<forall>e \<in> set (photos_data ?s'). item_inv (snd e) \<and> names_ok (snd e)"
    using inv by (auto simp: bot_inv_def item_inv_clear_item names_ok_clear_item)
  have gate: "gate_inv ?s'"
    unfolding gate_inv_def
  proof (intro allI impI)
    fix v p pd
    assume aw: "awaiting_name ?s' v = Some p" and g: "dict_get (photos_data ?s') p = Some pd"
    from g obtain pd0 where pd0: "dict_get (photos_data s) p = Some pd0" "pd = clear_item pd0"
      by (auto simp: dict_get_map_snd)
    have "\<not> dict_has v (users_of pd0)"
      using inv aw pd0(1) by (auto simp: bot_inv_def gate_inv_def)
    then show "\<not> dict_has v (users_of pd)"
      using users_of_clear_item pd0(2) by blast
  qed
  have "bot_inv ?s'"
    using items gate by (simp add: bot_inv_def)
  then show ?thesis
    using inv by (simp add: clear_names_def Let_def)
qed

lemma bot_inv_action_register: "bot_inv s \<Longrightarrow> bot_inv (snd (action_register s u p))"
  by (auto simp: action_register_def bot_inv_def gate_inv_def split: option.splits)

lemma bot_inv_admins [simp]: "bot_inv (s\<lparr>admins := A\<rparr>) = bot_inv s"
  by (simp add: bot_inv_def gate_inv_def)


lemma bot_inv_forget: "bot_inv s \<Longrightarrow> bot_inv (s\<lparr>awaiting_name := (awaiting_name s)(u := None)\<rparr>)"
  by (simp add: bot_inv_def gate_inv_def)


lemma bot_inv_item:
  "bot_inv s \<Longrightarrow> dict_get (photos_data s) p = Some pd \<Longrightarrow> item_inv pd \<and> names_ok pd"
proof -
  assume inv: "bot_inv s" and g: "dict_get (photos_data s) p = Some pd"
  from g have mem: "(p, pd) \<in> set (photos_data s)" by (rule dict_get_in_set)
  from inv have "\<forall>e \<in> set (photos_data s). item_inv (snd e) \<and> names_ok (snd e)"
    by (simp add: bot_inv_def)
  then have "item_inv (snd (p, pd)) \<and> names_ok (snd (p, pd))"
    using mem by (rule bspec)
  then show ?thesis by simp
qed

lemma bot_inv_gate:
  "bot_inv s \<Longrightarrow> awaiting_name s u = Some p \<Longrightarrow> dict_get (photos_data s) p = Some pd
   \<Longrightarrow> \<not> dict_has u (users_of pd)"
proof -
  assume inv: "bot_inv s" and aw: "awaiting_name s u = Some p"
    and g: "dict_get (photos_data s) p = Some pd"
  from inv have "gate_inv s" by (simp add: bot_inv_def)
  from this [unfolded gate_inv_def, rule_format, OF aw g] show ?thesis .
qed

lemma bot_inv_intro:
  "\<forall>e \<in> set (photos_data s). item_inv (snd e) \<and> names_ok (snd e) \<Longrightarrow> gate_inv s \<Longrightarrow> bot_inv s"
  by (simp add: bot_inv_def)

lemma clean_name_nonempty: "clean_name alnum text = Inr n \<Longrightarrow> n \<noteq> []"
proof -
  assume "clean_name alnum text = Inr n"
  from clean_name_Inr_text [OF this]
  have "n = escape_html (clean_text alnum (strip text))" "clean_text alnum (strip text) \<noteq> []"
    by simp_all
  then show ?thesis by (simp add: escape_html_nonempty)
qed


lemma gate_inv_commit:
  assumes inv: "bot_inv s" and pd: "dict_get (photos_data s) p = Some pd"
    and users: "\<And>v. v \<noteq> u \<Longrightarrow> dict_has v (users_of pd') \<Longrightarrow> dict_has v (users_of pd)"
  shows "gate_inv (s\<lparr>awaiting_name := (awaiting_name s)(u := None),
                    photos_data := dict_set p pd' (photos_data s)\<rparr>)"
  unfolding gate_inv_def
proof (intro allI impI)
  fix v q pd''
  assume aw: "awaiting_name (s\<lparr>awaiting_name := (awaiting_name s)(u := None),
                    photos_data := dict_set p pd' (photos_data s)\<rparr>) v = Some q"
    and g: "dict_get (photos_data (s\<lparr>awaiting_name := (awaiting_name s)(u := None),
                    photos_data := dict_set p pd' (photos_data s)\<rparr>)) q = Some pd''"
  have "(if v = u then None else awaiting_name s v) = Some q"
    using aw by simp
  then have vu: "v \<noteq> u" and aw0: "awaiting_name s v = Some q"
    by (simp_all split: if_splits)
  have g': "(if q = p then Some pd' else dict_get (photos_data s) q) = Some pd''"
    using g by (simp add: dict_get_set)
  show "\<not> dict_has v (users_of pd'')"
  proof (cases "q = p")
    case True
    then have e: "pd'' = pd'"
      using g' by simp
    have "\<not> dict_has v (users_of pd)"
      using bot_inv_gate [OF inv aw0] pd True by simp
    then show ?thesis
      using users [OF vu] e by blast
  next
    case False
    then have "dict_get (photos_data s) q = Some pd''"
      using g' by simp
    then show ?thesis
      by (rule bot_inv_gate [OF inv aw0])
  qed
qed


lemma bot_inv_set_item:
  assumes inv: "bot_inv s" and pd: "dict_get (photos_data s) p = Some pd"
    and ok: "item_inv pd' \<and> names_ok pd'"
    and users: "\<And>v. v \<noteq> u \<Longrightarrow> dict_has v (users_of pd') \<Longrightarrow> dict_has v (users_of pd)"
  shows "bot_inv (s\<lparr>awaiting_name := (awaiting_name s)(u := None),
                   photos_data := dict_set p pd' (photos_data s)\<rparr>)"
proof (rule bot_inv_intro)
  from inv have all: "\<forall>e \<in> set (photos_data s). item_inv (snd e) \<and> names_ok (snd e)"
    by (simp add: bot_inv_def)
  have "\<forall>e \<in> set (dict_set p pd' (photos_data s)). item_inv (snd e) \<and> names_ok (snd e)"
    using all ok by (rule set_photos_dict_set)
  then show "\<forall>e \<in> set (photos_data (s\<lparr>awaiting_name := (awaiting_name s)(u := None),
                   photos_data := dict_set p pd' (photos_data s)\<rparr>)).
      item_inv (snd e) \<and> names_ok (snd e)"
    by simp
next
  show "gate_inv (s\<lparr>awaiting_name := (awaiting_name s)(u := None),
                   photos_data := dict_set p pd' (photos_data s)\<rparr>)"
    using inv pd users by (rule gate_inv_commit)
qed

lemma handle_text_cases:
  "snd (handle_text alnum s u text) = s
   \<or> snd (handle_text alnum s u text) = s\<lparr>awaiting_name := (awaiting_name s)(u := None)\<rparr>
   \<or> (\<exists>p pd n. awaiting_name s u = Some p \<and> dict_get (photos_data s) p = Some pd
         \<and> clean_name alnum text = Inr n
         \<and> snd (handle_text alnum s u text) =
             s\<lparr>awaiting_name := (awaiting_name s)(u := None),
               photos_data := dict_set p (snd (register_commit u n pd)) (photos_data s)\<rparr>)"
proof (cases "fst (handle_text alnum s u text)")
  case (Inr out)
  from handle_text_Inr [OF Inr] obtain p pd n where
    "awaiting_name s u = Some p" "dict_get (photos_data s) p = Some pd"
    "clean_name alnum text = Inr n"
    "handle_text alnum s u text =
               (fst (register_commit u n pd),
                s\<lparr>awaiting_name := (awaiting_name s)(u := None),
                  photos_data := dict_set p (snd (register_commit u n pd)) (photos_data s)\<rparr>)"
    by blast
  then have "awaiting_name s u = Some p \<and> dict_get (photos_data s) p = Some pd
         \<and> clean_name alnum text = Inr n
         \<and> snd (handle_text alnum s u text) =
             s\<lparr>awaiting_name := (awaiting_name s)(u := None),
               photos_data := dict_set p (snd (register_commit u n pd)) (photos_data s)\<rparr>"
    by simp
  then show ?thesis by blast
next
  case (Inl e)
  show ?thesis
  proof (cases "awaiting_name s u")
    case None
    then show ?thesis by (simp add: handle_text_def)
  next
    case (Some p)
    show ?thesis
    proof (cases "dict_get (photos_data s) p")
      case None
      with Some show ?thesis by (simp add: handle_text_def Let_def)
    next
      case pd: (Some pd)
      show ?thesis
      proof (cases "clean_name alnum text")
        case cl: (Inl e')
        with Some pd show ?thesis by (simp add: handle_text_def Let_def)
      next
        case (Inr n)
        have g1: "dict_get (photos_data (s\<lparr>awaiting_name := (awaiting_name s)(u := None)\<rparr>)) p
                    = Some pd"
          using pd by simp
        have "handle_text alnum s u text =
                on_item (s\<lparr>awaiting_name := (awaiting_name s)(u := None)\<rparr>) p (register_commit u n)"
          using Some pd Inr by (simp add: handle_text_def Let_def)
        then have "fst (handle_text alnum s u text) = fst (register_commit u n pd)"
          by (simp add: on_item_Some [OF g1])
        with Inl register_commit_Inr [of u n pd] show ?thesis by simp
      qed
    qed
  qed
qed


lemma bot_inv_handle_text: "bot_inv s \<Longrightarrow> bot_inv (snd (handle_text alnum s u text))"
proof -
  assume inv: "bot_inv s"
  from handle_text_cases [of alnum s u "text"] show ?thesis
  proof (elim disjE exE conjE)
    assume "snd (handle_text alnum s u text) = s"
    then show ?thesis using inv by simp
  next
    assume "snd (handle_text alnum s u text) = s\<lparr>awaiting_name := (awaiting_name s)(u := None)\<rparr>"
    then show ?thesis using bot_inv_forget [OF inv, of u] by simp
  next
    fix p pd n
    assume aw: "awaiting_name s u = Some p" and pd: "dict_get (photos_data s) p = Some pd"
      and cn: "clean_name alnum text = Inr n"
      and res: "snd (handle_text alnum s u text) =
             s\<lparr>awaiting_name := (awaiting_name s)(u := None),
               photos_data := dict_set p (snd (register_commit u n pd)) (photos_data s)\<rparr>"
    have item: "item_inv pd" "names_ok pd"
      using bot_inv_item [OF inv pd] by simp_all
    have fresh: "\<not> dict_has u (users_of pd)"
      using inv aw pd by (rule bot_inv_gate)
    have ok: "item_inv (snd (register_commit u n pd)) \<and> names_ok (snd (register_commit u n pd))"
      using item_inv_register_commit [OF item(1) fresh, of n]
        names_ok_register_commit [OF item(2) clean_name_nonempty [OF cn], of u]
      by simp
    have users: "dict_has v (users_of pd)"
      if "v \<noteq> u" "dict_has v (users_of (snd (register_commit u n pd)))" for v
      using that by (simp add: register_commit_users dict_has_set)
    show ?thesis
      unfolding res using inv pd ok users by (rule bot_inv_set_item)
  qed
qed

lemma bot_inv_reset: "bot_inv s \<Longrightarrow> bot_inv (snd (confirm_reset_all s u))"
  by (simp add: confirm_reset_all_def bot_inv_def gate_inv_def dict_get_def)

lemma bot_inv_confirm_delete: "bot_inv s \<Longrightarrow> bot_inv (snd (button_confirm_delete s u p))"
proof -
  assume inv: "bot_inv s"
  show ?thesis
    unfolding button_confirm_delete_def
  proof (rule on_item_inv [OF inv])
    fix pd
    assume "item_inv pd" "names_ok pd"
    then show "item_inv (snd (confirm_delete u pd)) \<and> names_ok (snd (confirm_delete u pd))"
      by (rule inv_confirm_delete)
  next
    fix pd v
    assume "dict_has v (users_of (snd (confirm_delete u pd)))"
    then show "dict_has v (users_of pd)" by (rule users_confirm_delete)
  qed
qed

lemma bot_inv_action_confirm: "bot_inv s \<Longrightarrow> bot_inv (snd (on_item s p (action_confirm u)))"
proof -
  assume inv: "bot_inv s"
  show ?thesis
  proof (rule on_item_inv [OF inv])
    fix pd
    assume "item_inv pd" "names_ok pd"
    then show "item_inv (snd (action_confirm u pd)) \<and> names_ok (snd (action_confirm u pd))"
      by (simp add: item_inv_action_confirm names_ok_def)
  next
    fix pd v
    assume "dict_has v (users_of (snd (action_confirm u pd)))"
    then show "dict_has v (users_of pd)" by simp
  qed
qed

lemma bot_inv_button_confirm: "bot_inv s \<Longrightarrow> bot_inv (snd (button_confirm s u p))"
  by (simp add: button_confirm_def bot_inv_reset bot_inv_confirm_delete bot_inv_action_confirm)

lemma bot_inv_admindeleteok: "bot_inv s \<Longrightarrow> bot_inv (snd (button_admindeleteok s u n t))"
proof (cases "is_admin s u")
  case False
  assume "bot_inv s"
  with False show ?thesis by (simp add: button_admindeleteok_def)
next
  case True
  assume inv: "bot_inv s"
  have "bot_inv (snd (on_item s (''photo_'' @ n) (admindeleteok t)))"
  proof (rule on_item_inv [OF inv])
    fix pd
    assume "item_inv pd" "names_ok pd"
    then show "item_inv (snd (admindeleteok t pd)) \<and> names_ok (snd (admindeleteok t pd))"
      by (rule inv_admindeleteok)
  next
    fix pd v
    assume "dict_has v (users_of (snd (admindeleteok t pd)))"
    then show "dict_has v (users_of pd)" by (rule users_admindeleteok)
  qed
  with True show ?thesis by (simp add: button_admindeleteok_def)
qed

lemma bot_inv_adminunconfirmok: "bot_inv s \<Longrightarrow> bot_inv (snd (button_adminunconfirmok s u n t))"
proof (cases "is_admin s u")
  case False
  assume "bot_inv s"
  with False show ?thesis by (simp add: button_adminunconfirmok_def)
next
  case True
  assume inv: "bot_inv s"
  have "bot_inv (snd (on_item s (''photo_'' @ n) (adminunconfirmok t)))"
  proof (rule on_item_inv [OF inv])
    fix pd
    assume "item_inv pd" "names_ok pd"
    then show "item_inv (snd (adminunconfirmok t pd)) \<and> names_ok (snd (adminunconfirmok t pd))"
      by (simp add: item_inv_adminunconfirmok names_ok_adminunconfirmok)
  next
    fix pd v
    assume "dict_has v (users_of (snd (adminunconfirmok t pd)))"
    then show "dict_has v (users_of pd)" by (simp add: adminunconfirmok_fields)
  qed
  with True show ?thesis by (simp add: button_adminunconfirmok_def)
qed

lemma bot_inv_start: "bot_inv s \<Longrightarrow> bot_inv (snd (start s u))"
  by (simp add: start_def)

lemma bot_inv_add_admin: "bot_inv s \<Longrightarrow> bot_inv (snd (add_admin s u a))"
  by (simp add: add_admin_def split: cmd_arg.splits)

lemma bot_inv_remove_admin: "bot_inv s \<Longrightarrow> bot_inv (snd (remove_admin s u a))"
  by (simp add: remove_admin_def split: cmd_arg.splits)

lemma bot_inv_step: "bot_inv s \<Longrightarrow> bot_inv (snd (step alnum s e))"
  by (cases e)
    (simp_all add: bot_inv_start bot_inv_add_admin bot_inv_remove_admin bot_inv_handle_photo
      bot_inv_clear_names bot_inv_reset bot_inv_action_register bot_inv_handle_text
      bot_inv_button_confirm bot_inv_confirm_delete bot_inv_admindeleteok
      bot_inv_adminunconfirmok)

lemma bot_inv_run: "bot_inv s \<Longrightarrow> bot_inv (snd (run alnum s es))"
proof (induction es arbitrary: s)
  case Nil
  then show ?case by simp
next
  case (Cons e es)
  have "bot_inv (snd (step alnum s e))"
    using Cons.prems by (rule bot_inv_step)
  then have "bot_inv (snd (run alnum (snd (step alnum s e)) es))"
    by (rule Cons.IH)
  then show ?case
    by (simp add: run_Cons del: run.simps)
qed

lemma load_item_empty: "users_of (load_item d) = [] \<and> confirmed_of (load_item d) = []"
  by (simp add: load_item_def users_of_def confirmed_of_def split: option.splits)

lemma bot_inv_loaded:
  "bot_inv \<lparr>admins = A, photos_data = load_photos_data f, awaiting_name = Map.empty\<rparr>"
proof -
  have "item_inv (snd e) \<and> names_ok (snd e)" if "e \<in> set (load_photos_data f)" for e
  proof -
    from that obtain d where "snd e = load_item d"
      by (cases f) (auto simp: load_photos_data_def)
    then show ?thesis
      using load_item_empty [of d] by (simp add: item_inv_def names_ok_def)
  qed
  then show ?thesis
    by (simp add: bot_inv_def gate_inv_def)
qed

text \<open>
  C1. Each operation on an item keeps the invariant of the item: explicit confirmation,
  unregistration, withdrawal of a confirmation and deletion by an administrator, the
  clearing of all registrations, and the storing of a name with automatic confirmation
  for a user who is not registered, which is what the button \<open>register\<close> checks before a
  name is awaited. For the bot as a whole: the state loaded at start satisfies the
  invariant of the items together with that of the awaited names, every handler keeps
  both, and so after every run of updates each item has no user confirmed twice, at most
  \<open>MAX_CONFIRMED_USERS\<close> confirmed users, and every confirmed entry under the name that the
  registered set holds for its user.
\<close>

theorem handlers_keep_item_invariant:
  "(item_inv pd \<longrightarrow>
      item_inv (snd (action_confirm u pd)) \<and> item_inv (snd (confirm_delete u pd))
      \<and> item_inv (snd (adminunconfirmok u pd)) \<and> item_inv (snd (admindeleteok u pd))
      \<and> item_inv (clear_item pd)
      \<and> (\<not> dict_has u (users_of pd) \<longrightarrow> item_inv (snd (register_commit u n pd))))
   \<and> bot_inv \<lparr>admins = A, photos_data = load_photos_data f, awaiting_name = Map.empty\<rparr>
   \<and> (bot_inv s \<longrightarrow> bot_inv (snd (step alnum s e)))
   \<and> (\<forall>it \<in> set (photos_data
          (snd (run alnum \<lparr>admins = A, photos_data = load_photos_data f, awaiting_name = Map.empty\<rparr>
                  es))).
        distinct (map fst (confirmed_of (snd it)))
        \<and> length (confirmed_of (snd it)) \<le> MAX_CONFIRMED_USERS
        \<and> (\<forall>c \<in> set (confirmed_of (snd it)).
              dict_get (users_of (snd it)) (fst c) = Some (snd c)))"
proof -
  have items: "item_inv (snd (action_confirm u pd)) \<and> item_inv (snd (confirm_delete u pd))
      \<and> item_inv (snd (adminunconfirmok u pd)) \<and> item_inv (snd (admindeleteok u pd))
      \<and> item_inv (clear_item pd)
      \<and> (\<not> dict_has u (users_of pd) \<longrightarrow> item_inv (snd (register_commit u n pd)))"
    if inv: "item_inv pd"
  proof -
    have "item_inv (snd (confirm_delete u pd))"
      using snd_confirm_delete [of u pd] item_inv_removed [OF inv, of u] inv by auto
    moreover have "item_inv (snd (admindeleteok u pd))"
      using snd_admindeleteok [of u pd] item_inv_removed [OF inv, of u] inv by auto
    ultimately show ?thesis
      using inv item_inv_action_confirm [of pd u] item_inv_adminunconfirmok [of pd u]
        item_inv_clear_item [of pd] item_inv_register_commit [of pd u n]
      by blast
  qed
  let ?s0 = "\<lparr>admins = A, photos_data = load_photos_data f, awaiting_name = Map.empty\<rparr>"
  have start: "bot_inv ?s0"
    by (rule bot_inv_loaded)
  have "bot_inv (snd (run alnum ?s0 es))"
    using start by (rule bot_inv_run)
  then have reach: "\<forall>it \<in> set (photos_data (snd (run alnum ?s0 es))).
        distinct (map fst (confirmed_of (snd it)))
        \<and> length (confirmed_of (snd it)) \<le> MAX_CONFIRMED_USERS
        \<and> (\<forall>c \<in> set (confirmed_of (snd it)).
              dict_get (users_of (snd it)) (fst c) = Some (snd c))"
    by (simp add: bot_inv_def item_inv_def)
  have st: "bot_inv (snd (step alnum s e))" if "bot_inv s"
    using that by (rule bot_inv_step)
  from items start st reach show ?thesis by blast
qed

theorem handlers_keep_item_invariant_witness:
  "item_inv full_item \<and> item_inv (snd (admindeleteok 2 full_item))
   \<and> confirmed_of (snd (admindeleteok 2 full_item)) = [(1, name_ann), (3, name_cid), (4, name_dan)]
   \<and> bot_inv awaiting_state
   \<and> bot_inv (snd (step ascii_alnum awaiting_state (Text 5 name_ann)))"
proof -
  have i: "item_inv full_item"
    by (simp add: item_inv_def full_item_def four_users_def users_of_def confirmed_of_def
        dict_get_def MAX_CONFIRMED_USERS_def)
  have b: "bot_inv awaiting_state"
    by (simp add: bot_inv_def gate_inv_def awaiting_state_def item_inv_def names_ok_def
        dict_get_def new_photo_def users_of_def confirmed_of_def dict_has_def)
  have c: "confirmed_of (snd (admindeleteok 2 full_item)) =
      [(1, name_ann), (3, name_cid), (4, name_dan)]"
    by (simp add: admindeleteok_def lookup_name_def full_item_def four_users_def users_of_def
        confirmed_of_def dict_get_def name_bob_def Let_def remove_user_def remove_confirmed_def
        dict_has_def)
  show ?thesis
    using handlers_keep_item_invariant [of full_item 2 name_eve "{1}" NoFile awaiting_state
        ascii_alnum "Text 5 name_ann" "[]"] i b c
    by simp
qed

subsection \<open>Registration followed by unregistration\<close>








lemma media_register_commit:
  "photo (snd (register_commit u n pd)) = photo pd"
  "photo_file_unique_id (snd (register_commit u n pd)) = photo_file_unique_id pd"
  by (simp_all add: register_commit_def Let_def)










subsection \<open>Withdrawal of a confirmation by an administrator\<close>

lemma dict_get_on_item:
  "dict_get (photos_data (snd (on_item s p f))) q =
     (if q = p then map_option (\<lambda>pd. snd (f pd)) (dict_get (photos_data s) p)
      else dict_get (photos_data s) q)"
proof (cases "dict_get (photos_data s) p")
  case None
  then show ?thesis by (simp add: on_item_None)
next
  case (Some pd)
  then show ?thesis by (simp add: on_item_Some dict_get_set)
qed

lemma on_item_no_new:
  assumes f: "\<And>pd. is_confirmed v (confirmed_of (snd (f pd))) \<Longrightarrow> is_confirmed v (confirmed_of pd)"
    and g: "dict_get (photos_data s) q = Some pd"
    and g': "dict_get (photos_data (snd (on_item s p f))) q = Some pd'"
    and new: "is_confirmed v (confirmed_of pd')"
  shows "is_confirmed v (confirmed_of pd)"
proof (cases "q = p")
  case True
  with g g' have "pd' = snd (f pd)" by (simp add: dict_get_on_item)
  with new show ?thesis by (simp add: f)
next
  case False
  with g g' have "pd' = pd" by (simp add: dict_get_on_item)
  with new show ?thesis by simp
qed

lemma kept_confirm_delete:
  "is_confirmed v (confirmed_of (snd (confirm_delete u pd))) \<Longrightarrow> is_confirmed v (confirmed_of pd)"
  by (auto simp: confirm_delete_def is_confirmed_def split: option.splits)

lemma kept_admindeleteok:
  "is_confirmed v (confirmed_of (snd (admindeleteok u pd))) \<Longrightarrow> is_confirmed v (confirmed_of pd)"
  by (auto simp: admindeleteok_def Let_def is_confirmed_def split: option.splits)

lemma kept_adminunconfirmok:
  "is_confirmed v (confirmed_of (snd (adminunconfirmok u pd))) \<Longrightarrow> is_confirmed v (confirmed_of pd)"
  using adminunconfirmok_fields(2) [of u pd] by (auto simp: is_confirmed_def)

lemma kept_clear_item:
  "is_confirmed v (confirmed_of (clear_item pd)) \<Longrightarrow> is_confirmed v (confirmed_of pd)"
  by (auto simp: clear_item_def is_confirmed_def split: if_splits)

lemma new_action_confirm:
  assumes "is_confirmed v (confirmed_of (snd (action_confirm u pd)))"
    and "\<not> is_confirmed v (confirmed_of pd)"
  shows "v = u \<and> dict_has u (users_of pd)
     \<and> (\<exists>n. dict_get (users_of pd) u = Some n
          \<and> confirmed_of (snd (action_confirm u pd)) = confirmed_of pd @ [(u, n)])"
  using assms
  by (auto simp: action_confirm_def Let_def is_confirmed_def split: option.splits if_splits)

lemma new_register_commit:
  assumes "is_confirmed v (confirmed_of (snd (register_commit u n pd)))"
    and "\<not> is_confirmed v (confirmed_of pd)"
  shows "v = u \<and> confirmed_of (snd (register_commit u n pd)) = confirmed_of pd @ [(u, n)]
     \<and> dict_get (users_of (snd (register_commit u n pd))) u = Some n"
  using assms
  by (auto simp: register_commit_def Let_def is_confirmed_def dict_get_set split: if_splits)

lemma step_new_confirmed:
  assumes g: "dict_get (photos_data s) q = Some pd"
    and g': "dict_get (photos_data (snd (step alnum s e))) q = Some pd'"
    and new: "is_confirmed v (confirmed_of pd')"
    and old: "\<not> is_confirmed v (confirmed_of pd)"
  shows "((e = ConfirmButton v q \<and> dict_has v (users_of pd))
          \<or> (\<exists>t. e = Text v t \<and> awaiting_name s v = Some q))
     \<and> (\<exists>n. confirmed_of pd' = confirmed_of pd @ [(v, n)] \<and> dict_get (users_of pd') v = Some n)"
proof -
  have same: "photos_data (snd (step alnum s e)) = photos_data s \<Longrightarrow> False"
  proof -
    assume "photos_data (snd (step alnum s e)) = photos_data s"
    with g g' have "pd' = pd" by simp
    with new old show False by simp
  qed
  show ?thesis
  proof (cases e)
    case (Start u)
    have "photos_data (snd (step alnum s e)) = photos_data s"
      by (simp add: Start start_def)
    then show ?thesis by (rule same [THEN FalseE])
  next
    case (AddAdmin u a)
    have "photos_data (snd (step alnum s e)) = photos_data s"
      by (simp add: AddAdmin add_admin_def split: cmd_arg.splits)
    then show ?thesis by (rule same [THEN FalseE])
  next
    case (RemoveAdmin u a)
    have "photos_data (snd (step alnum s e)) = photos_data s"
      by (simp add: RemoveAdmin remove_admin_def split: cmd_arg.splits)
    then show ?thesis by (rule same [THEN FalseE])
  next
    case (Photo u f k)
    show ?thesis
    proof (cases "is_admin s u")
      case False
      then have "photos_data (snd (step alnum s e)) = photos_data s"
        by (simp add: Photo handle_photo_def)
      then show ?thesis by (rule same [THEN FalseE])
    next
      case True
      with g g' have "pd' = pd \<or> pd' = new_photo f k"
        by (simp add: Photo handle_photo_def Let_def dict_get_set split: if_splits)
      with new old have False
        by (auto simp: new_photo_def confirmed_of_def is_confirmed_def)
      then show ?thesis ..
    qed
  next
    case (ClearNames u)
    show ?thesis
    proof (cases "is_admin s u \<and> photos_data s \<noteq> []")
      case False
      then have "photos_data (snd (step alnum s e)) = photos_data s"
        by (auto simp: ClearNames clear_names_def)
      then show ?thesis by (rule same [THEN FalseE])
    next
      case True
      with g g' have "pd' = clear_item pd"
        by (simp add: ClearNames clear_names_def Let_def dict_get_map_snd)
      with new have "is_confirmed v (confirmed_of pd)"
        by (simp add: kept_clear_item)
      with old show ?thesis by simp
    qed
  next
    case (ConfirmResetAll u)
    show ?thesis
    proof (cases "is_admin s u")
      case False
      then have "photos_data (snd (step alnum s e)) = photos_data s"
        by (simp add: ConfirmResetAll confirm_reset_all_def)
      then show ?thesis by (rule same [THEN FalseE])
    next
      case True
      with g' have False
        by (simp add: ConfirmResetAll confirm_reset_all_def dict_get_def)
      then show ?thesis ..
    qed
  next
    case (RegisterButton u p)
    have "photos_data (snd (step alnum s e)) = photos_data s"
      by (simp add: RegisterButton action_register_def split: option.splits)
    then show ?thesis by (rule same [THEN FalseE])
  next
    case (Text u t)
    from handle_text_cases [of alnum s u t]
    consider "snd (handle_text alnum s u t) = s"
      | "snd (handle_text alnum s u t) = s\<lparr>awaiting_name := (awaiting_name s)(u := None)\<rparr>"
      | p pd0 n where "awaiting_name s u = Some p" "dict_get (photos_data s) p = Some pd0"
          "clean_name alnum t = Inr n"
          "snd (handle_text alnum s u t) =
             s\<lparr>awaiting_name := (awaiting_name s)(u := None),
               photos_data := dict_set p (snd (register_commit u n pd0)) (photos_data s)\<rparr>"
      by blast
    then show ?thesis
    proof cases
      case 1
      then have "photos_data (snd (step alnum s e)) = photos_data s"
        by (simp add: Text)
      then show ?thesis by (rule same [THEN FalseE])
    next
      case 2
      then have "photos_data (snd (step alnum s e)) = photos_data s"
        by (simp add: Text)
      then show ?thesis by (rule same [THEN FalseE])
    next
      case 3
      have ph: "photos_data (snd (step alnum s e)) =
          dict_set p (snd (register_commit u n pd0)) (photos_data s)"
        by (simp add: Text 3(4))
      show ?thesis
      proof (cases "q = p")
        case False
        with g g' ph have "pd' = pd" by (simp add: dict_get_set)
        with new old show ?thesis by simp
      next
        case True
        with g 3(2) have pd0: "pd0 = pd" by simp
        from g' ph True have pd': "pd' = snd (register_commit u n pd)"
          by (simp add: dict_get_set pd0)
        from new old have "v = u \<and> confirmed_of (snd (register_commit u n pd)) = confirmed_of pd @ [(u, n)]
            \<and> dict_get (users_of (snd (register_commit u n pd))) u = Some n"
          unfolding pd' by (rule new_register_commit)
        with 3(1) True show ?thesis
          by (simp add: Text pd')
      qed
    qed
  next
    case (ConfirmButton u r)
    show ?thesis
    proof (cases "r = ''reset_all''")
      case True
      have "photos_data (snd (step alnum s e)) = photos_data s
          \<or> photos_data (snd (step alnum s e)) = []"
        by (simp add: ConfirmButton button_confirm_def True confirm_reset_all_def)
      then show ?thesis
      proof
        assume "photos_data (snd (step alnum s e)) = photos_data s"
        then show ?thesis by (rule same [THEN FalseE])
      next
        assume "photos_data (snd (step alnum s e)) = []"
        with g' have False by (simp add: dict_get_def)
        then show ?thesis ..
      qed
    next
      case nr: False
      show ?thesis
      proof (cases "take 7 r = ''delete_''")
        case True
        with nr have st: "snd (step alnum s e) =
            snd (on_item s (remove_sub ''confirm_delete_'' (''confirm_delete_'' @ drop 7 r))
                   (confirm_delete u))"
          by (simp add: ConfirmButton button_confirm_def button_confirm_delete_def)
        have "is_confirmed v (confirmed_of pd)"
          using kept_confirm_delete g g' [unfolded st] new by (rule on_item_no_new)
        with old show ?thesis by simp
      next
        case False
        with nr have st: "snd (step alnum s e) = snd (on_item s r (action_confirm u))"
          by (simp add: ConfirmButton button_confirm_def)
        show ?thesis
        proof (cases "q = r")
          case False
          with g g' st have "pd' = pd" by (simp add: dict_get_on_item)
          with new old show ?thesis by simp
        next
          case True
          with g g' st have pd': "pd' = snd (action_confirm u pd)"
            by (simp add: dict_get_on_item)
          from new old have "v = u \<and> dict_has u (users_of pd)
             \<and> (\<exists>n. dict_get (users_of pd) u = Some n
                \<and> confirmed_of (snd (action_confirm u pd)) = confirmed_of pd @ [(u, n)])"
            unfolding pd' by (rule new_action_confirm)
          with True show ?thesis
            by (auto simp: ConfirmButton pd')
        qed
      qed
    qed
  next
    case (ConfirmDeleteButton u p)
    have st: "snd (step alnum s e) =
        snd (on_item s (remove_sub ''confirm_delete_'' (''confirm_delete_'' @ p)) (confirm_delete u))"
      by (simp add: ConfirmDeleteButton button_confirm_delete_def)
    have "is_confirmed v (confirmed_of pd)"
      using kept_confirm_delete g g' [unfolded st] new by (rule on_item_no_new)
    with old show ?thesis by simp
  next
    case (AdminDeleteOk u k t)
    show ?thesis
    proof (cases "is_admin s u")
      case False
      then have "photos_data (snd (step alnum s e)) = photos_data s"
        by (simp add: AdminDeleteOk button_admindeleteok_def)
      then show ?thesis by (rule same [THEN FalseE])
    next
      case True
      then have st: "snd (step alnum s e) = snd (on_item s (''photo_'' @ k) (admindeleteok t))"
        by (simp add: AdminDeleteOk button_admindeleteok_def)
      have "is_confirmed v (confirmed_of pd)"
        using kept_admindeleteok g g' [unfolded st] new by (rule on_item_no_new)
      with old show ?thesis by simp
    qed
  next
    case (AdminUnconfirmOk u k t)
    show ?thesis
    proof (cases "is_admin s u")
      case False
      then have "photos_data (snd (step alnum s e)) = photos_data s"
        by (simp add: AdminUnconfirmOk button_adminunconfirmok_def)
      then show ?thesis by (rule same [THEN FalseE])
    next
      case True
      then have st: "snd (step alnum s e) = snd (on_item s (''photo_'' @ k) (adminunconfirmok t))"
        by (simp add: AdminUnconfirmOk button_adminunconfirmok_def)
      have "is_confirmed v (confirmed_of pd)"
        using kept_adminunconfirmok g g' [unfolded st] new by (rule on_item_no_new)
      with old show ?thesis by simp
    qed
  qed
qed


lemma length_filter_distinct_key:
  "distinct (map fst cs) \<Longrightarrow> t \<in> set (map fst cs)
   \<Longrightarrow> Suc (length (filter (\<lambda>e. fst e \<noteq> t) cs)) = length cs"
proof (induction cs)
  case Nil
  then show ?case by simp
next
  case (Cons c cs)
  show ?case
  proof (cases "fst c = t")
    case True
    with Cons.prems have "t \<notin> set (map fst cs)" by simp
    then have "filter (\<lambda>e. fst e \<noteq> t) cs = cs"
      by (intro filter_True) auto
    with True show ?thesis by simp
  next
    case False
    with Cons show ?thesis by simp
  qed
qed

lemma adminunconfirmok_confirmed:
  assumes inv: "item_inv pd" and ok: "names_ok pd" and c: "is_confirmed t (confirmed_of pd)"
  shows "\<exists>n. dict_get (users_of pd) t = Some n \<and> n \<noteq> []
     \<and> adminunconfirmok t pd =
         (Inr (AdminUnconfirmed n (length (confirmed_of pd) - 1)),
          pd\<lparr>confirmed_users := Some (filter (\<lambda>e. fst e \<noteq> t) (confirmed_of pd))\<rparr>)"
proof -
  from c obtain n where mem: "(t, n) \<in> set (confirmed_of pd)"
    by (auto simp: is_confirmed_def)
  from inv have "\<forall>e \<in> set (confirmed_of pd). dict_get (users_of pd) (fst e) = Some (snd e)"
    by (simp add: item_inv_def)
  from this mem have "dict_get (users_of pd) (fst (t, n)) = Some (snd (t, n))"
    by (rule bspec)
  then have g: "dict_get (users_of pd) t = Some n" by simp
  then have "(t, n) \<in> set (users_of pd)" by (rule dict_get_in_set)
  with ok have n: "n \<noteq> []" by (auto simp: names_ok_def)
  from g n have ln: "lookup_name t pd = Some n" by (simp add: lookup_name_Some)
  from mem obtain cs where cs: "confirmed_users pd = Some cs"
    by (cases "confirmed_users pd") (auto simp: confirmed_of_def)
  then have co: "confirmed_of pd = cs" by (simp add: confirmed_of_def)
  from inv have "distinct (map fst cs)" by (simp add: item_inv_def co)
  moreover from c have "t \<in> set (map fst cs)" by (simp add: is_confirmed_def co)
  ultimately have len: "Suc (length (filter (\<lambda>e. fst e \<noteq> t) cs)) = length cs"
    by (rule length_filter_distinct_key)
  then have "length (filter (\<lambda>e. fst e \<noteq> t) cs) = length cs - 1"
    and "length cs \<noteq> length (filter (\<lambda>e. fst e \<noteq> t) cs)"
    by simp_all
  then have "adminunconfirmok t pd =
         (Inr (AdminUnconfirmed n (length (confirmed_of pd) - 1)),
          pd\<lparr>confirmed_users := Some (filter (\<lambda>e. fst e \<noteq> t) (confirmed_of pd))\<rparr>)"
    by (simp add: adminunconfirmok_def ln cs co Let_def)
  with g n show ?thesis by blast
qed

lemma button_adminunconfirmok_item:
  "is_admin s a \<Longrightarrow> dict_get (photos_data s) (''photo_'' @ part) = Some pd \<Longrightarrow>
   step alnum s (AdminUnconfirmOk a part t) =
     (fst (adminunconfirmok t pd),
      s\<lparr>photos_data := dict_set (''photo_'' @ part) (snd (adminunconfirmok t pd)) (photos_data s)\<rparr>)"
  by (simp add: button_adminunconfirmok_def on_item_Some)

text \<open>
  C5, as the claim states it, fails: the place that an administrator frees on a full
  item is taken by the automatic confirmation of a user who registers, in a run with no
  button \<open>confirm\<close>.
\<close>

theorem adminunconfirmok_place_taken_counterexample:
  "fst (run ascii_alnum full_state
          [AdminUnconfirmOk 1 ''1'' 2, RegisterButton 5 ''photo_1'', Text 5 name_eve])
     = [Inr (AdminUnconfirmed name_bob 3), Inr AwaitingName,
        Inr (AutoConfirmed name_eve 3 icon_star)]
   \<and> photos_data (snd (run ascii_alnum full_state
          [AdminUnconfirmOk 1 ''1'' 2, RegisterButton 5 ''photo_1'', Text 5 name_eve]))
     = [(''photo_1'',
         full_item\<lparr>users := Some (four_users @ [(5, name_eve)]),
                   confirmed_users :=
                     Some [(1, name_ann), (3, name_cid), (4, name_dan), (5, name_eve)]\<rparr>)]"
proof -
  have e1: "step ascii_alnum full_state (AdminUnconfirmOk 1 ''1'' 2) =
      (Inr (AdminUnconfirmed name_bob 3), full_state\<lparr>photos_data := [(''photo_1'', three_item)]\<rparr>)"
    by (simp add: button_adminunconfirmok_def is_admin_def full_state_def on_item_def
        dict_get_def adminunconfirmok_def lookup_name_def full_item_def three_item_def
        users_of_def confirmed_of_def four_users_def name_bob_def Let_def)
  have e2: "step ascii_alnum (full_state\<lparr>photos_data := [(''photo_1'', three_item)]\<rparr>)
        (RegisterButton 5 ''photo_1'') = (Inr AwaitingName, freed_state)"
    by (simp add: action_register_def full_state_def freed_state_def dict_get_def dict_has_def
        three_item_def users_of_def four_users_def)
  have cn: "clean_name ascii_alnum name_eve = Inr name_eve"
    by (simp add: clean_name_def name_eve_def strip_def is_space_def clean_text_def
        allowed_char_def ascii_alnum_def escape_html_def escape_char_def Let_def)
  have e3: "step ascii_alnum freed_state (Text 5 name_eve) =
      (Inr (AutoConfirmed name_eve 3 icon_star),
       \<lparr>admins = {1},
        photos_data = [(''photo_1'',
         full_item\<lparr>users := Some (four_users @ [(5, name_eve)]),
                   confirmed_users :=
                     Some [(1, name_ann), (3, name_cid), (4, name_dan), (5, name_eve)]\<rparr>)],
        awaiting_name = Map.empty\<rparr>)"
    by (simp add: handle_text_def cn on_item_def dict_get_def register_commit_def Let_def
        freed_state_def three_item_def full_item_def users_of_def confirmed_of_def
        is_confirmed_def MAX_CONFIRMED_USERS_def four_users_def get_user_icon_def)
  show ?thesis
    by (simp add: run_Cons e1 e2 e3 del: step.simps)
qed

text \<open>
  C5. On an item that satisfies the invariant, the withdrawal of a confirmation by an
  administrator, for a user who is confirmed, succeeds and changes the confirmed list
  only: the user's entry is dropped, the others stay in their order, the registered
  names (the user's own among them) and the media fields are as before, and the user is
  not confirmed again by the operation. A registered user who is not confirmed can then
  confirm and is put at the end of the shortened list. The button of the administrator
  applies this to the item \<open>photo_<n>\<close> and to nothing else. In a state that satisfies
  the invariant, a user who was not confirmed under a photo is confirmed there after an
  update only if the update is the user's own button \<open>confirm\<close>, with the user
  registered, or the text of the user whose name is awaited for that photo, who was not
  registered; either way the entry is put at the end of the confirmed list.
\<close>

theorem adminunconfirmok_frees_place:
  "(item_inv pd \<and> names_ok pd \<and> is_confirmed t (confirmed_of pd) \<longrightarrow>
      (\<exists>n. dict_get (users_of pd) t = Some n
         \<and> adminunconfirmok t pd =
             (Inr (AdminUnconfirmed n (length (confirmed_of pd) - 1)),
              pd\<lparr>confirmed_users := Some (filter (\<lambda>e. fst e \<noteq> t) (confirmed_of pd))\<rparr>)
         \<and> Suc (length (confirmed_of (snd (adminunconfirmok t pd)))) = length (confirmed_of pd)
         \<and> users (snd (adminunconfirmok t pd)) = users pd
         \<and> photo (snd (adminunconfirmok t pd)) = photo pd
         \<and> photo_file_unique_id (snd (adminunconfirmok t pd)) = photo_file_unique_id pd
         \<and> dict_get (users_of (snd (adminunconfirmok t pd))) t = Some n
         \<and> \<not> is_confirmed t (confirmed_of (snd (adminunconfirmok t pd)))
         \<and> (\<forall>v m. dict_get (users_of pd) v = Some m
                \<and> \<not> is_confirmed v (confirmed_of (snd (adminunconfirmok t pd))) \<longrightarrow>
              action_confirm v (snd (adminunconfirmok t pd)) =
                (Inr (ConfirmedAt m (int (length (confirmed_of pd)) - 1)
                        (get_user_icon (int (length (confirmed_of pd)) - 1))),
                 pd\<lparr>confirmed_users :=
                      Some (filter (\<lambda>e. fst e \<noteq> t) (confirmed_of pd) @ [(v, m)])\<rparr>))))
   \<and> (is_admin s a \<and> dict_get (photos_data s) (''photo_'' @ part) = Some pd \<longrightarrow>
        step alnum s (AdminUnconfirmOk a part t) =
          (fst (adminunconfirmok t pd),
           s\<lparr>photos_data :=
               dict_set (''photo_'' @ part) (snd (adminunconfirmok t pd)) (photos_data s)\<rparr>))
   \<and> (bot_inv s \<and> dict_get (photos_data s) q = Some pd0
       \<and> dict_get (photos_data (snd (step alnum s e))) q = Some pd1
       \<and> is_confirmed v (confirmed_of pd1) \<and> \<not> is_confirmed v (confirmed_of pd0) \<longrightarrow>
        ((e = ConfirmButton v q \<and> dict_has v (users_of pd0))
         \<or> (\<exists>tx. e = Text v tx \<and> awaiting_name s v = Some q \<and> \<not> dict_has v (users_of pd0)))
        \<and> (\<exists>n. confirmed_of pd1 = confirmed_of pd0 @ [(v, n)]
               \<and> dict_get (users_of pd1) v = Some n))"
proof (intro conjI impI)
  assume a: "item_inv pd \<and> names_ok pd \<and> is_confirmed t (confirmed_of pd)"
  then have inv: "item_inv pd" and ok: "names_ok pd" and c: "is_confirmed t (confirmed_of pd)"
    by simp_all
  from adminunconfirmok_confirmed [OF inv ok c]
  obtain n where g: "dict_get (users_of pd) t = Some n"
    and r: "adminunconfirmok t pd =
         (Inr (AdminUnconfirmed n (length (confirmed_of pd) - 1)),
          pd\<lparr>confirmed_users := Some (filter (\<lambda>e. fst e \<noteq> t) (confirmed_of pd))\<rparr>)"
    by blast
  let ?cs = "filter (\<lambda>e. fst e \<noteq> t) (confirmed_of pd)"
  from inv have "distinct (map fst (confirmed_of pd))" by (simp add: item_inv_def)
  moreover from c have "t \<in> set (map fst (confirmed_of pd))" by (simp add: is_confirmed_def)
  ultimately have len: "Suc (length ?cs) = length (confirmed_of pd)"
    by (rule length_filter_distinct_key)
  from inv have "length (confirmed_of pd) \<le> MAX_CONFIRMED_USERS" by (simp add: item_inv_def)
  with len have room: "length ?cs < MAX_CONFIRMED_USERS" by simp
  have conf: "\<forall>v m. dict_get (users_of pd) v = Some m
                \<and> \<not> is_confirmed v (confirmed_of (snd (adminunconfirmok t pd))) \<longrightarrow>
              action_confirm v (snd (adminunconfirmok t pd)) =
                (Inr (ConfirmedAt m (int (length (confirmed_of pd)) - 1)
                        (get_user_icon (int (length (confirmed_of pd)) - 1))),
                 pd\<lparr>confirmed_users := Some (?cs @ [(v, m)])\<rparr>)"
  proof (intro allI impI)
    fix v m
    assume h: "dict_get (users_of pd) v = Some m
                \<and> \<not> is_confirmed v (confirmed_of (snd (adminunconfirmok t pd)))"
    let ?pd = "pd\<lparr>confirmed_users := Some ?cs\<rparr>"
    from h have 1: "dict_get (users_of ?pd) v = Some m" by simp
    from room have 2: "length (confirmed_of ?pd) < MAX_CONFIRMED_USERS" by simp
    from h have 3: "\<not> is_confirmed v (confirmed_of ?pd)" by (simp add: r)
    from len have i: "int (length ?cs) = int (length (confirmed_of pd)) - 1" by simp
    from action_confirm_ok [OF 1 2 3] show "action_confirm v (snd (adminunconfirmok t pd)) =
                (Inr (ConfirmedAt m (int (length (confirmed_of pd)) - 1)
                        (get_user_icon (int (length (confirmed_of pd)) - 1))),
                 pd\<lparr>confirmed_users := Some (?cs @ [(v, m)])\<rparr>)"
      by (simp add: r i)
  qed
  have rest: "Suc (length (confirmed_of (snd (adminunconfirmok t pd)))) = length (confirmed_of pd)
         \<and> users (snd (adminunconfirmok t pd)) = users pd
         \<and> photo (snd (adminunconfirmok t pd)) = photo pd
         \<and> photo_file_unique_id (snd (adminunconfirmok t pd)) = photo_file_unique_id pd
         \<and> dict_get (users_of (snd (adminunconfirmok t pd))) t = Some n
         \<and> \<not> is_confirmed t (confirmed_of (snd (adminunconfirmok t pd)))"
    using len g by (simp add: r not_confirmed_filter)
  from g r rest conf
  show "\<exists>n. dict_get (users_of pd) t = Some n
         \<and> adminunconfirmok t pd =
             (Inr (AdminUnconfirmed n (length (confirmed_of pd) - 1)),
              pd\<lparr>confirmed_users := Some (filter (\<lambda>e. fst e \<noteq> t) (confirmed_of pd))\<rparr>)
         \<and> Suc (length (confirmed_of (snd (adminunconfirmok t pd)))) = length (confirmed_of pd)
         \<and> users (snd (adminunconfirmok t pd)) = users pd
         \<and> photo (snd (adminunconfirmok t pd)) = photo pd
         \<and> photo_file_unique_id (snd (adminunconfirmok t pd)) = photo_file_unique_id pd
         \<and> dict_get (users_of (snd (adminunconfirmok t pd))) t = Some n
         \<and> \<not> is_confirmed t (confirmed_of (snd (adminunconfirmok t pd)))
         \<and> (\<forall>v m. dict_get (users_of pd) v = Some m
                \<and> \<not> is_confirmed v (confirmed_of (snd (adminunconfirmok t pd))) \<longrightarrow>
              action_confirm v (snd (adminunconfirmok t pd)) =
                (Inr (ConfirmedAt m (int (length (confirmed_of pd)) - 1)
                        (get_user_icon (int (length (confirmed_of pd)) - 1))),
                 pd\<lparr>confirmed_users :=
                      Some (filter (\<lambda>e. fst e \<noteq> t) (confirmed_of pd) @ [(v, m)])\<rparr>))"
    by blast
next
  assume "is_admin s a \<and> dict_get (photos_data s) (''photo_'' @ part) = Some pd"
  then have "is_admin s a" and "dict_get (photos_data s) (''photo_'' @ part) = Some pd"
    by (rule conjunct1, rule conjunct2)
  then show "step alnum s (AdminUnconfirmOk a part t) =
          (fst (adminunconfirmok t pd),
           s\<lparr>photos_data :=
               dict_set (''photo_'' @ part) (snd (adminunconfirmok t pd)) (photos_data s)\<rparr>)"
    by (rule button_adminunconfirmok_item)
next
  assume h: "bot_inv s \<and> dict_get (photos_data s) q = Some pd0
       \<and> dict_get (photos_data (snd (step alnum s e))) q = Some pd1
       \<and> is_confirmed v (confirmed_of pd1) \<and> \<not> is_confirmed v (confirmed_of pd0)"
  then have inv: "bot_inv s" and g: "dict_get (photos_data s) q = Some pd0"
    and g': "dict_get (photos_data (snd (step alnum s e))) q = Some pd1"
    and new: "is_confirmed v (confirmed_of pd1)" and old: "\<not> is_confirmed v (confirmed_of pd0)"
    by simp_all
  from step_new_confirmed [OF g g' new old]
  have how: "(e = ConfirmButton v q \<and> dict_has v (users_of pd0))
          \<or> (\<exists>tx. e = Text v tx \<and> awaiting_name s v = Some q)"
    by (rule conjunct1)
  have "awaiting_name s v = Some q \<Longrightarrow> \<not> dict_has v (users_of pd0)"
    using inv _ g by (rule bot_inv_gate)
  with how show "(e = ConfirmButton v q \<and> dict_has v (users_of pd0))
         \<or> (\<exists>tx. e = Text v tx \<and> awaiting_name s v = Some q \<and> \<not> dict_has v (users_of pd0))"
    by blast
next
  assume h: "bot_inv s \<and> dict_get (photos_data s) q = Some pd0
       \<and> dict_get (photos_data (snd (step alnum s e))) q = Some pd1
       \<and> is_confirmed v (confirmed_of pd1) \<and> \<not> is_confirmed v (confirmed_of pd0)"
  then have g: "dict_get (photos_data s) q = Some pd0"
    and g': "dict_get (photos_data (snd (step alnum s e))) q = Some pd1"
    and new: "is_confirmed v (confirmed_of pd1)" and old: "\<not> is_confirmed v (confirmed_of pd0)"
    by simp_all
  from step_new_confirmed [OF g g' new old]
  show "\<exists>n. confirmed_of pd1 = confirmed_of pd0 @ [(v, n)] \<and> dict_get (users_of pd1) v = Some n"
    by (rule conjunct2)
qed


theorem adminunconfirmok_frees_place_witness:
  "(item_inv three_item \<and> names_ok three_item \<and> is_confirmed 3 (confirmed_of three_item))
   \<and> adminunconfirmok 3 three_item =
       (Inr (AdminUnconfirmed name_cid 2),
        three_item\<lparr>confirmed_users := Some [(1, name_ann), (4, name_dan)]\<rparr>)
   \<and> action_confirm 2 (snd (adminunconfirmok 3 three_item)) =
       (Inr (ConfirmedAt name_bob 2 icon_moon),
        three_item\<lparr>confirmed_users := Some [(1, name_ann), (4, name_dan), (2, name_bob)]\<rparr>)
   \<and> (is_admin freed_state 1 \<and> dict_get (photos_data freed_state) ''photo_1'' = Some three_item)
   \<and> step ascii_alnum freed_state (AdminUnconfirmOk 1 ''1'' 3) =
       (Inr (AdminUnconfirmed name_cid 2),
        freed_state\<lparr>photos_data :=
          [(''photo_1'', three_item\<lparr>confirmed_users := Some [(1, name_ann), (4, name_dan)]\<rparr>)]\<rparr>)
   \<and> (bot_inv freed_state
       \<and> dict_get (photos_data (snd (step ascii_alnum freed_state (Text 5 name_eve)))) ''photo_1'' =
           Some (three_item\<lparr>users := Some (four_users @ [(5, name_eve)]),
                   confirmed_users :=
                     Some [(1, name_ann), (3, name_cid), (4, name_dan), (5, name_eve)]\<rparr>)
       \<and> is_confirmed 5 (confirmed_of
           (three_item\<lparr>users := Some (four_users @ [(5, name_eve)]),
                   confirmed_users :=
                     Some [(1, name_ann), (3, name_cid), (4, name_dan), (5, name_eve)]\<rparr>))
       \<and> \<not> is_confirmed 5 (confirmed_of three_item))
   \<and> awaiting_name freed_state 5 = Some ''photo_1'' \<and> \<not> dict_has 5 (users_of three_item)"
proof -
  have a1: "item_inv three_item"
    by (simp add: three_item_def item_inv_def confirmed_of_def users_of_def four_users_def
        dict_get_def MAX_CONFIRMED_USERS_def)
  have a2: "names_ok three_item"
    by (simp add: three_item_def names_ok_def users_of_def four_users_def
        name_ann_def name_bob_def name_cid_def name_dan_def)
  have a3: "is_confirmed 3 (confirmed_of three_item)"
    by (simp add: three_item_def is_confirmed_def confirmed_of_def)
  have a4: "is_admin freed_state 1"
    by (simp add: freed_state_def is_admin_def)
  have a5: "dict_get (photos_data freed_state) ''photo_1'' = Some three_item"
    by (simp add: freed_state_def dict_get_def)
  have a5': "dict_get (photos_data freed_state) (''photo_'' @ ''1'') = Some three_item"
    by (simp add: freed_state_def dict_get_def)
  have a11: "\<not> dict_has 5 (users_of three_item)"
    by (simp add: three_item_def users_of_def four_users_def dict_has_def)
  have a6: "bot_inv freed_state"
    by (simp add: bot_inv_def gate_inv_def freed_state_def dict_get_def a1 a2 a11)
  have cn: "clean_name ascii_alnum name_eve = Inr name_eve"
    by (simp add: clean_name_def name_eve_def strip_def is_space_def clean_text_def
        allowed_char_def ascii_alnum_def escape_html_def escape_char_def Let_def)
  have a7: "dict_get (photos_data (snd (step ascii_alnum freed_state (Text 5 name_eve)))) ''photo_1'' =
           Some (three_item\<lparr>users := Some (four_users @ [(5, name_eve)]),
                   confirmed_users :=
                     Some [(1, name_ann), (3, name_cid), (4, name_dan), (5, name_eve)]\<rparr>)"
    by (simp add: handle_text_def cn on_item_def dict_get_def register_commit_def Let_def
        freed_state_def three_item_def users_of_def confirmed_of_def is_confirmed_def
        MAX_CONFIRMED_USERS_def four_users_def)
  have a8: "is_confirmed 5 (confirmed_of
           (three_item\<lparr>users := Some (four_users @ [(5, name_eve)]),
                   confirmed_users :=
                     Some [(1, name_ann), (3, name_cid), (4, name_dan), (5, name_eve)]\<rparr>))"
    by (simp add: is_confirmed_def confirmed_of_def)
  have a9: "\<not> is_confirmed 5 (confirmed_of three_item)"
    by (simp add: three_item_def is_confirmed_def confirmed_of_def)
  have a10: "awaiting_name freed_state 5 = Some ''photo_1''"
    by (simp add: freed_state_def)
  have a12: "dict_get (users_of three_item) 2 = Some name_bob"
    by (simp add: three_item_def users_of_def four_users_def dict_get_def)
  note th = adminunconfirmok_frees_place [where pd = three_item and t = 3 and s = freed_state
      and a = 1 and part = "''1''" and alnum = ascii_alnum and q = "''photo_1''"
      and ?pd0.0 = three_item and e = "Text 5 name_eve" and v = 5
      and ?pd1.0 = "three_item\<lparr>users := Some (four_users @ [(5, name_eve)]),
                   confirmed_users :=
                     Some [(1, name_ann), (3, name_cid), (4, name_dan), (5, name_eve)]\<rparr>"]
  from th a1 a2 a3 obtain n where n: "dict_get (users_of three_item) 3 = Some n"
    and r: "adminunconfirmok 3 three_item =
             (Inr (AdminUnconfirmed n (length (confirmed_of three_item) - 1)),
              three_item\<lparr>confirmed_users :=
                 Some (filter (\<lambda>e. fst e \<noteq> 3) (confirmed_of three_item))\<rparr>)"
    and nc: "\<forall>v m. dict_get (users_of three_item) v = Some m
                \<and> \<not> is_confirmed v (confirmed_of (snd (adminunconfirmok 3 three_item))) \<longrightarrow>
              action_confirm v (snd (adminunconfirmok 3 three_item)) =
                (Inr (ConfirmedAt m (int (length (confirmed_of three_item)) - 1)
                        (get_user_icon (int (length (confirmed_of three_item)) - 1))),
                 three_item\<lparr>confirmed_users :=
                      Some (filter (\<lambda>e. fst e \<noteq> 3) (confirmed_of three_item) @ [(v, m)])\<rparr>)"
    by blast
  from n have n': "n = name_cid"
    by (simp add: three_item_def users_of_def four_users_def dict_get_def)
  have cf: "confirmed_of three_item = [(1, name_ann), (3, name_cid), (4, name_dan)]"
    by (simp add: three_item_def confirmed_of_def)
  from r have k1: "adminunconfirmok 3 three_item =
       (Inr (AdminUnconfirmed name_cid 2),
        three_item\<lparr>confirmed_users := Some [(1, name_ann), (4, name_dan)]\<rparr>)"
    by (simp add: n' cf)
  have "\<not> is_confirmed 2 (confirmed_of (snd (adminunconfirmok 3 three_item)))"
    by (simp add: k1 is_confirmed_def)
  with nc a12 have "action_confirm 2 (snd (adminunconfirmok 3 three_item)) =
                (Inr (ConfirmedAt name_bob (int (length (confirmed_of three_item)) - 1)
                        (get_user_icon (int (length (confirmed_of three_item)) - 1))),
                 three_item\<lparr>confirmed_users :=
                      Some (filter (\<lambda>e. fst e \<noteq> 3) (confirmed_of three_item) @ [(2, name_bob)])\<rparr>)"
    by blast
  then have k2: "action_confirm 2 (snd (adminunconfirmok 3 three_item)) =
       (Inr (ConfirmedAt name_bob 2 icon_moon),
        three_item\<lparr>confirmed_users := Some [(1, name_ann), (4, name_dan), (2, name_bob)]\<rparr>)"
    by (simp add: cf get_user_icon_def)
  from th a4 a5' have "step ascii_alnum freed_state (AdminUnconfirmOk 1 ''1'' 3) =
          (fst (adminunconfirmok 3 three_item),
           freed_state\<lparr>photos_data :=
               dict_set (''photo_'' @ ''1'') (snd (adminunconfirmok 3 three_item))
                 (photos_data freed_state)\<rparr>)"
    by blast
  then have k3: "step ascii_alnum freed_state (AdminUnconfirmOk 1 ''1'' 3) =
       (Inr (AdminUnconfirmed name_cid 2),
        freed_state\<lparr>photos_data :=
          [(''photo_1'', three_item\<lparr>confirmed_users := Some [(1, name_ann), (4, name_dan)]\<rparr>)]\<rparr>)"
    by (simp add: k1 freed_state_def del: step.simps)
  from a1 a2 a3 k1 k2 a4 a5 k3 a6 a7 a8 a9 a10 a11 show ?thesis
    by (intro conjI) assumption+
qed


end
